theory Spec2Isabelle
  imports Complex_Main
begin

section \<open>The transfer monitor's state\<close>

text \<open>
  JavaScript strings are modelled as \<open>string\<close> (lists of characters); the empty string
  is the only falsy string.  The enrichment record \<open>TxContext\<close> has seven nullable fields.
\<close>

record TxContext =
  eventType :: "string option"
  contractAddress :: "string option"
  action :: "string option"
  offerAsset :: "string option"
  askAsset :: "string option"
  offerAmount :: "string option"
  returnAmount :: "string option"

text \<open>
  The fields of class \<open>TransferMonitor\<close>: the set \<open>seenTxHashes\<close>, the array \<open>txOrder\<close>,
  the counter \<open>nonEventMessageCount\<close> and the map \<open>txContextCache\<close>, whose declared value
  type is \<open>TxContext | null\<close> (an entry holding \<open>null\<close> is \<open>Some None\<close>).
\<close>

record monitor =
  seenTxHashes :: "string set"
  txOrder :: "string list"
  nonEventMessageCount :: nat
  txContextCache :: "string \<rightharpoonup> TxContext option"

definition newMonitor :: monitor where
  "newMonitor = \<lparr>seenTxHashes = {}, txOrder = [], nonEventMessageCount = 0,
     txContextCache = Map.empty\<rparr>"

text \<open>
  \<open>markSeen\<close>: add to the set, push on the array, and when the array is longer than
  \<open>cfg.maxSeenTxHashes\<close> shift the oldest entry out; the set entry is deleted under the
  guard \<open>if (oldest)\<close>, which is false for \<open>undefined\<close> (empty array) and for the empty
  string.
\<close>

definition markSeen :: "int \<Rightarrow> string \<Rightarrow> monitor \<Rightarrow> monitor" where
  "markSeen maxSeen txHash m =
     (let seen = insert txHash (seenTxHashes m);
          order = txOrder m @ [txHash]
      in if int (length order) > maxSeen
         then (case order of
                 [] \<Rightarrow> m\<lparr>seenTxHashes := seen, txOrder := order\<rparr>
               | oldest # rest \<Rightarrow>
                   m\<lparr>seenTxHashes := (if oldest \<noteq> [] then seen - {oldest} else seen),
                     txOrder := rest\<rparr>)
         else m\<lparr>seenTxHashes := seen, txOrder := order\<rparr>)"

section \<open>Strings\<close>

text \<open>
  Character classes of the regular expressions in the source, and the string methods
  \<open>trim\<close> and \<open>toLowerCase\<close>.  Characters are code units below 256; \<open>trim\<close> strips
  the white space of that range (tab, line feed, vertical tab, form feed, carriage return,
  space, no-break space), and case mapping acts on the ASCII letters.
\<close>

definition isDigit :: "char \<Rightarrow> bool" where
  "isDigit c = (c \<in> set ''0123456789'')"

definition isLowerAz :: "char \<Rightarrow> bool" where
  "isLowerAz c = (c \<in> set ''abcdefghijklmnopqrstuvwxyz'')"

definition isUpperAz :: "char \<Rightarrow> bool" where
  "isUpperAz c = (c \<in> set ''ABCDEFGHIJKLMNOPQRSTUVWXYZ'')"

definition isWordChar :: "char \<Rightarrow> bool" where
  "isWordChar c = (isDigit c \<or> isLowerAz c \<or> isUpperAz c \<or> c = CHR ''_'')"

definition isSpace :: "char \<Rightarrow> bool" where
  "isSpace c = (c \<in> {CHR 0x09, CHR 0x0A, CHR 0x0B, CHR 0x0C, CHR 0x0D, CHR 0x20, CHR 0xA0})"

definition trim :: "string \<Rightarrow> string" where
  "trim s = rev (dropWhile isSpace (rev (dropWhile isSpace s)))"

definition toLowerChar :: "char \<Rightarrow> char" where
  "toLowerChar c =
     (case map_of (zip ''ABCDEFGHIJKLMNOPQRSTUVWXYZ'' ''abcdefghijklmnopqrstuvwxyz'') c of
        Some l \<Rightarrow> l | None \<Rightarrow> c)"

definition toLowerCase :: "string \<Rightarrow> string" where
  "toLowerCase s = map toLowerChar s"

text \<open>\<open>/^\d+$/.test(s)\<close>.\<close>

definition allDigits :: "string \<Rightarrow> bool" where
  "allDigits s = (s \<noteq> [] \<and> list_all isDigit s)"

text \<open>\<open>s.endsWith(t)\<close> and \<open>s.slice(0, -n)\<close> for \<open>n > 0\<close>.\<close>

definition endsWith :: "string \<Rightarrow> string \<Rightarrow> bool" where
  "endsWith s t = (length t \<le> length s \<and> drop (length s - length t) s = t)"

definition sliceOffEnd :: "string \<Rightarrow> nat \<Rightarrow> string" where
  "sliceOffEnd s n = take (length s - n) s"

section \<open>Parsed JSON values\<close>

text \<open>
  The values \<open>JSON.parse\<close> returns.  An object is the list of its own properties in
  enumeration order (keys distinct).  A number is kept as the string that JavaScript's
  number-to-string conversion gives for it (\<open>50\<close>, \<open>1.5\<close>, \<open>1e+21\<close>); the source only
  converts numbers to strings, tests their truthiness (false exactly for zero, written
  \<open>0\<close>) and compares them for equality.  A property read that finds nothing gives
  \<open>undefined\<close>, modelled as \<open>None\<close>.
\<close>

datatype json =
    JNull
  | JBool bool
  | JNum string
  | JStr string
  | JArr "json list"
  | JObj "(string \<times> json) list"

datatype js_error = TypeError | RangeError

definition bindE :: "js_error + 'a \<Rightarrow> ('a \<Rightarrow> js_error + 'b) \<Rightarrow> js_error + 'b" where
  "bindE r f = (case r of Inl e \<Rightarrow> Inl e | Inr x \<Rightarrow> f x)"

fun mapE :: "('a \<Rightarrow> js_error + 'b) \<Rightarrow> 'a list \<Rightarrow> js_error + 'b list" where
  "mapE f [] = Inr []"
| "mapE f (x # xs) = bindE (f x) (\<lambda>y. bindE (mapE f xs) (\<lambda>ys. Inr (y # ys)))"

text \<open>\<open>asRecord\<close>: a non-null, non-array object, else \<open>null\<close>.\<close>

fun asRecord :: "json option \<Rightarrow> (string \<times> json) list option" where
  "asRecord (Some (JObj kvs)) = Some kvs"
| "asRecord _ = None"

text \<open>The optional property read \<open>obj?.key\<close> on the result of \<open>asRecord\<close>.\<close>

definition getProp :: "(string \<times> json) list option \<Rightarrow> string \<Rightarrow> json option" where
  "getProp obj k = (case obj of None \<Rightarrow> None | Some kvs \<Rightarrow> map_of kvs k)"

text \<open>Truthiness, as tested by \<open>||\<close>, \<open>&&\<close>, \<open>!\<close> and \<open>if\<close>.\<close>

fun truthy :: "json option \<Rightarrow> bool" where
  "truthy None = False"
| "truthy (Some JNull) = False"
| "truthy (Some (JBool b)) = b"
| "truthy (Some (JNum n)) = (n \<noteq> ''0'')"
| "truthy (Some (JStr s)) = (s \<noteq> [])"
| "truthy (Some (JArr xs)) = True"
| "truthy (Some (JObj kvs)) = True"

text \<open>
  \<open>String(v)\<close>.  An array is joined with commas, \<open>null\<close> elements giving the empty
  string.  An object is converted by its \<open>toString\<close> property: the inherited method
  gives \<open>[object Object]\<close>, but a parsed object with an own key \<open>toString\<close> holds a
  value that is not callable, the inherited \<open>valueOf\<close> returns the object itself, and the
  conversion throws a TypeError.
\<close>

fun joinComma :: "string list \<Rightarrow> string" where
  "joinComma [] = []"
| "joinComma [x] = x"
| "joinComma (x # y # ys) = x @ '','' @ joinComma (y # ys)"

fun js_String :: "json \<Rightarrow> js_error + string"
  and js_Strings :: "json list \<Rightarrow> js_error + string list" where
  "js_String JNull = Inr ''null''"
| "js_String (JBool b) = Inr (if b then ''true'' else ''false'')"
| "js_String (JNum n) = Inr n"
| "js_String (JStr s) = Inr s"
| "js_String (JArr xs) = bindE (js_Strings xs) (\<lambda>ss. Inr (joinComma ss))"
| "js_String (JObj kvs) =
     (if ''toString'' \<in> fst ` set kvs then Inl TypeError else Inr ''[object Object]'')"
| "js_Strings [] = Inr []"
| "js_Strings (x # xs) =
     bindE (if x = JNull then Inr [] else js_String x)
       (\<lambda>s. bindE (js_Strings xs) (\<lambda>ss. Inr (s # ss)))"

text \<open>\<open>String(v || "")\<close> and \<open>String(v ?? "")\<close>.\<close>

definition stringOr :: "json option \<Rightarrow> js_error + string" where
  "stringOr v = (if truthy v then js_String (the v) else Inr [])"

definition stringNullish :: "json option \<Rightarrow> js_error + string" where
  "stringNullish v = (case v of None \<Rightarrow> Inr [] | Some JNull \<Rightarrow> Inr [] | Some x \<Rightarrow> js_String x)"

text \<open>
  \<open>walk\<close> visits a value, then the items of an array or the property values of an object,
  depth first; the model lists the visited values in order.
\<close>

fun walk :: "json \<Rightarrow> json list" where
  "walk (JArr xs) = JArr xs # concat (map walk xs)"
| "walk (JObj kvs) = JObj kvs # concat (map (\<lambda>kv. walk (snd kv)) kvs)"
| "walk v = [v]"

section \<open>Extraction of transfer events\<close>

record TxSendEvent =
  sender :: string
  recipient :: string
  amount :: string
  denom :: string
  txhash :: string

text \<open>
  \<open>isTxSendEvent\<close>: an object whose \<open>sender\<close>, \<open>recipient\<close>, \<open>denom\<close> and \<open>txhash\<close> are
  strings and whose \<open>amount\<close> is a string or a number.  The object found is kept as these
  five fields, a number amount as its string conversion (which is all that
  \<open>normalizeTransfer\<close> reads of it).
\<close>

fun amountField :: "json option \<Rightarrow> string option" where
  "amountField (Some (JStr s)) = Some s"
| "amountField (Some (JNum n)) = Some n"
| "amountField _ = None"

fun stringField :: "json option \<Rightarrow> string option" where
  "stringField (Some (JStr s)) = Some s"
| "stringField _ = None"

definition asTxSendEvent :: "json \<Rightarrow> TxSendEvent option" where
  "asTxSendEvent v =
     (case asRecord (Some v) of
        None \<Rightarrow> None
      | Some obj \<Rightarrow>
          (case stringField (map_of obj ''sender'') of None \<Rightarrow> None | Some s \<Rightarrow>
          (case stringField (map_of obj ''recipient'') of None \<Rightarrow> None | Some r \<Rightarrow>
          (case amountField (map_of obj ''amount'') of None \<Rightarrow> None | Some a \<Rightarrow>
          (case stringField (map_of obj ''denom'') of None \<Rightarrow> None | Some d \<Rightarrow>
          (case stringField (map_of obj ''txhash'') of None \<Rightarrow> None | Some h \<Rightarrow>
             Some \<lparr>sender = s, recipient = r, amount = a, denom = d, txhash = h\<rparr>))))))"

text \<open>Strategy 1: the walk that collects every value satisfying \<open>isTxSendEvent\<close>.\<close>

definition directScan :: "json \<Rightarrow> TxSendEvent list" where
  "directScan payload = List.map_filter asTxSendEvent (walk payload)"

fun stringArray :: "json option \<Rightarrow> string list" where
  "stringArray (Some (JArr xs)) = List.map_filter (\<lambda>x. stringField (Some x)) xs"
| "stringArray _ = []"

fun firstArrayValue :: "json option \<Rightarrow> string option" where
  "firstArrayValue (Some (JArr (JStr s # xs))) = Some s"
| "firstArrayValue _ = None"

text \<open>\<open>a || b\<close> on values of type \<open>string | null\<close>.\<close>

definition orElse :: "string option \<Rightarrow> string option \<Rightarrow> string option" where
  "orElse a b = (case a of None \<Rightarrow> b | Some s \<Rightarrow> if s \<noteq> [] then Some s else b)"

text \<open>\<open>xs[i] || xs[0] || ""\<close>.\<close>

definition pickAt :: "string list \<Rightarrow> nat \<Rightarrow> string" where
  "pickAt xs i =
     (if i < length xs \<and> xs ! i \<noteq> [] then xs ! i
      else if xs \<noteq> [] \<and> hd xs \<noteq> [] then hd xs
      else [])"

text \<open>
  \<open>s.match(/^(\d+)([a-z0-9]+)$/)\<close>: the first group is greedy, and gives back its last
  digit when nothing else is left for the second group.
\<close>

definition isAz09 :: "char \<Rightarrow> bool" where
  "isAz09 c = (isDigit c \<or> isLowerAz c)"

definition splitAmount :: "string \<Rightarrow> (string \<times> string) option" where
  "splitAmount s =
     (if s \<noteq> [] \<and> list_all isAz09 s \<and> isDigit (hd s)
      then (if dropWhile isDigit s \<noteq> [] then Some (takeWhile isDigit s, dropWhile isDigit s)
            else if 2 \<le> length s then Some (butlast s, [last s])
            else None)
      else None)"

definition cosmosTransferAt ::
    "string list \<Rightarrow> string list \<Rightarrow> string list \<Rightarrow> string \<Rightarrow> nat \<Rightarrow> TxSendEvent option" where
  "cosmosTransferAt senders recipients amounts h i =
     (let s = trim (pickAt senders i);
          r = trim (pickAt recipients i);
          a = trim (pickAt amounts i)
      in if s = [] \<or> r = [] \<or> a = [] then None
         else (case splitAmount (toLowerCase a) of
                 None \<Rightarrow> None
               | Some (num, den) \<Rightarrow>
                   Some \<lparr>sender = s, recipient = r, amount = num, denom = den, txhash = h\<rparr>))"

text \<open>Strategy 2: the map \<open>result.events\<close> of parallel arrays.\<close>

definition extractFromCosmosEventStyle :: "json \<Rightarrow> TxSendEvent list" where
  "extractFromCosmosEventStyle payload =
     (case asRecord (Some payload) of
        None \<Rightarrow> []
      | Some obj \<Rightarrow>
          (let result = asRecord (map_of obj ''result'');
               events = asRecord (getProp result ''events'');
               senders = stringArray (getProp events ''transfer.sender'');
               recipients = stringArray (getProp events ''transfer.recipient'');
               amounts = stringArray (getProp events ''transfer.amount'');
               txh = orElse (firstArrayValue (getProp events ''tx.hash''))
                            (firstArrayValue (getProp events ''tx.hashes''))
           in (case txh of
                 None \<Rightarrow> []
               | Some h \<Rightarrow>
                   if h = [] \<or> senders = [] \<or> recipients = [] \<or> amounts = [] then []
                   else List.map_filter (cosmosTransferAt senders recipients amounts h)
                          [0 ..< max (length senders) (max (length recipients) (length amounts))])))"

text \<open>
  \<open>extractTxHash\<close>: the direct \<open>txhash\<close> field, then \<open>result.events\<close>, then
  \<open>result.data.value.TxResult.result.hash\<close>.
\<close>

definition truthyString :: "string option \<Rightarrow> bool" where
  "truthyString v = (case v of None \<Rightarrow> False | Some s \<Rightarrow> s \<noteq> [])"

definition extractTxHash :: "json \<Rightarrow> string option" where
  "extractTxHash payload =
     (case asRecord (Some payload) of
        None \<Rightarrow> None
      | Some rootObj \<Rightarrow>
          if truthyString (stringField (map_of rootObj ''txhash''))
          then stringField (map_of rootObj ''txhash'')
          else (let result = asRecord (map_of rootObj ''result'');
                    events = asRecord (getProp result ''events'');
                    eventHash = orElse (firstArrayValue (getProp events ''tx.hash''))
                                       (firstArrayValue (getProp events ''tx.hashes''))
                in if truthyString eventHash then eventHash
                   else (let data = asRecord (getProp result ''data'');
                             val = asRecord (getProp data ''value'');
                             txResultContainer = asRecord (getProp val ''TxResult'');
                             txResult = asRecord (getProp txResultContainer ''result'')
                         in stringField (getProp txResult ''hash''))))"

text \<open>
  \<open>parseCoins\<close>: the successive matches of \<open>/(\d+)([a-z0-9/._-]+)/g\<close> in the lowercased
  string.  A match starts at a digit; the digits are followed by the longest run of
  denomination characters, or, when none follows, the last of at least two digits is
  the denomination.
\<close>

definition isCoinDenomChar :: "char \<Rightarrow> bool" where
  "isCoinDenomChar c = (isDigit c \<or> isLowerAz c \<or> c \<in> set ''/._-'')"

function parseCoinsFrom :: "string \<Rightarrow> (string \<times> string) list" where
  "parseCoinsFrom [] = []"
| "parseCoinsFrom (c # cs) =
     (if isDigit c
      then (if dropWhile isDigit cs \<noteq> [] \<and> isCoinDenomChar (hd (dropWhile isDigit cs))
            then (c # takeWhile isDigit cs, takeWhile isCoinDenomChar (dropWhile isDigit cs))
                 # parseCoinsFrom (dropWhile isCoinDenomChar (dropWhile isDigit cs))
            else if takeWhile isDigit cs \<noteq> []
            then (butlast (c # takeWhile isDigit cs), [last (c # takeWhile isDigit cs)])
                 # parseCoinsFrom (dropWhile isDigit cs)
            else parseCoinsFrom cs)
      else parseCoinsFrom cs)"
  by pat_completeness auto
termination
  by (relation "measure length")
     (auto intro: le_imp_less_Suc order_trans [OF length_dropWhile_le length_dropWhile_le]
                  length_dropWhile_le)

definition parseCoins :: "string \<Rightarrow> (string \<times> string) list" where
  "parseCoins raw = parseCoinsFrom (toLowerCase raw)"

text \<open>
  \<open>decodeMaybeBase64\<close>.  The parameter \<open>b64\<close> stands for
  \<open>Buffer.from(s, "base64").toString("utf-8")\<close> of the runtime, \<open>None\<close> when it throws
  (the source catches that).
\<close>

definition isPlainChar :: "char \<Rightarrow> bool" where
  "isPlainChar c = (isDigit c \<or> isLowerAz c \<or> isUpperAz c \<or> c \<in> set ''/._:-'')"

definition isBase64Char :: "char \<Rightarrow> bool" where
  "isBase64Char c = (isDigit c \<or> isLowerAz c \<or> isUpperAz c \<or> c \<in> set ''+/='')"

definition isPrintable :: "char \<Rightarrow> bool" where
  "isPrintable c = (32 \<le> (of_char c :: nat) \<and> (of_char c :: nat) \<le> 126)"

definition decodeMaybeBase64 :: "(string \<Rightarrow> string option) \<Rightarrow> string \<Rightarrow> string" where
  "decodeMaybeBase64 b64 input =
     (let trimmed = trim input
      in if trimmed = [] then []
         else if list_all isPlainChar trimmed then trimmed
         else if \<not> list_all isBase64Char trimmed \<or> length trimmed mod 4 \<noteq> 0 then trimmed
         else (case b64 trimmed of
                 None \<Rightarrow> trimmed
               | Some d \<Rightarrow>
                   (let decoded = trim d
                    in if decoded = [] then trimmed
                       else if list_all isPrintable decoded then decoded else trimmed)))"

text \<open>
  Strategy 3: events of type \<open>transfer\<close> in the arrays \<open>TxResult.result.events\<close> and
  \<open>result.events\<close>.  The attribute loop converts \<open>attr.key\<close>, then \<open>attr.value\<close>, to
  strings (either conversion can throw) and sorts the decoded values by key.
\<close>

fun collectAttrs ::
    "(string \<Rightarrow> string option) \<Rightarrow> json list \<Rightarrow> string list \<times> string list \<times> string list
     \<Rightarrow> js_error + (string list \<times> string list \<times> string list)" where
  "collectAttrs b64 [] acc = Inr acc"
| "collectAttrs b64 (attrRaw # rest) (senders, recipients, amounts) =
     (case asRecord (Some attrRaw) of
        None \<Rightarrow> collectAttrs b64 rest (senders, recipients, amounts)
      | Some attr \<Rightarrow>
          bindE (stringNullish (map_of attr ''key'')) (\<lambda>k.
          bindE (stringNullish (map_of attr ''value'')) (\<lambda>v.
            collectAttrs b64 rest
              (if decodeMaybeBase64 b64 k = ''sender''
               then (senders @ [decodeMaybeBase64 b64 v], recipients, amounts)
               else if decodeMaybeBase64 b64 k = ''recipient''
               then (senders, recipients @ [decodeMaybeBase64 b64 v], amounts)
               else if decodeMaybeBase64 b64 k = ''amount''
               then (senders, recipients, amounts @ [decodeMaybeBase64 b64 v])
               else (senders, recipients, amounts)))))"

definition arrayItems :: "json option \<Rightarrow> json list" where
  "arrayItems v = (case v of Some (JArr xs) \<Rightarrow> xs | _ \<Rightarrow> [])"

definition tendermintTransfersAt ::
    "string list \<Rightarrow> string list \<Rightarrow> string list \<Rightarrow> string \<Rightarrow> nat \<Rightarrow> TxSendEvent list" where
  "tendermintTransfersAt senders recipients amounts h i =
     (let s = trim (pickAt senders i);
          r = trim (pickAt recipients i);
          amountStr = toLowerCase (trim (pickAt amounts i))
      in if s = [] \<or> r = [] \<or> amountStr = [] then []
         else map (\<lambda>coin. \<lparr>sender = s, recipient = r, amount = fst coin, denom = snd coin,
                             txhash = h\<rparr>)
                  (parseCoins amountStr))"

definition transfersOfEvent ::
    "(string \<Rightarrow> string option) \<Rightarrow> string \<Rightarrow> (string \<times> json) list \<Rightarrow> js_error + TxSendEvent list" where
  "transfersOfEvent b64 h event =
     bindE (stringOr (map_of event ''type'')) (\<lambda>ty.
       if toLowerCase ty \<noteq> ''transfer'' then Inr []
       else bindE (collectAttrs b64 (arrayItems (map_of event ''attributes'')) ([], [], []))
              (\<lambda>acc. case acc of (senders, recipients, amounts) \<Rightarrow>
                 Inr (concat (map (tendermintTransfersAt senders recipients amounts h)
                        [0 ..< max (length senders) (max (length recipients) (length amounts))]))))"

definition recordsOf :: "json option \<Rightarrow> (string \<times> json) list list" where
  "recordsOf candidate = List.map_filter (\<lambda>x. asRecord (Some x)) (arrayItems candidate)"

definition extractFromTendermintEventArray ::
    "(string \<Rightarrow> string option) \<Rightarrow> json \<Rightarrow> js_error + TxSendEvent list" where
  "extractFromTendermintEventArray b64 payload =
     (case asRecord (Some payload) of
        None \<Rightarrow> Inr []
      | Some rootObj \<Rightarrow>
          (case extractTxHash payload of
             None \<Rightarrow> Inr []
           | Some h \<Rightarrow>
               if h = [] then Inr []
               else (let result = asRecord (map_of rootObj ''result'');
                         data = asRecord (getProp result ''data'');
                         val = asRecord (getProp data ''value'');
                         txResultContainer = asRecord (getProp val ''TxResult'');
                         txResult = asRecord (getProp txResultContainer ''result'');
                         allEvents = recordsOf (getProp txResult ''events'')
                                     @ recordsOf (getProp result ''events'')
                     in if allEvents = [] then Inr []
                        else bindE (mapE (transfersOfEvent b64 h) allEvents)
                               (\<lambda>xs. Inr (concat xs)))))"

text \<open>
  Strategy 4: message bodies.  The visitor of the walk reads \<open>@type\<close> of every object
  visited and, for the two message types, one candidate per fund or coin.
\<close>

fun coinTransfers ::
    "string \<Rightarrow> string \<Rightarrow> string \<Rightarrow> json list \<Rightarrow> js_error + TxSendEvent list" where
  "coinTransfers s r h [] = Inr []"
| "coinTransfers s r h (coinRaw # rest) =
     (case asRecord (Some coinRaw) of
        None \<Rightarrow> coinTransfers s r h rest
      | Some coin \<Rightarrow>
          bindE (stringOr (map_of coin ''denom'')) (\<lambda>d.
          bindE (stringOr (map_of coin ''amount'')) (\<lambda>a.
            if toLowerCase (trim d) = [] \<or> trim a = [] then coinTransfers s r h rest
            else bindE (coinTransfers s r h rest) (\<lambda>ts.
                   Inr (\<lparr>sender = s, recipient = r, amount = trim a,
                          denom = toLowerCase (trim d), txhash = h\<rparr> # ts)))))"

definition isArray :: "json option \<Rightarrow> bool" where
  "isArray v = (case v of Some (JArr xs) \<Rightarrow> True | _ \<Rightarrow> False)"

definition messageBodyVisit :: "string \<Rightarrow> json \<Rightarrow> js_error + TxSendEvent list" where
  "messageBodyVisit h v =
     (case asRecord (Some v) of
        None \<Rightarrow> Inr []
      | Some obj \<Rightarrow>
          bindE (stringOr (map_of obj ''@type'')) (\<lambda>msgType.
          bindE (if msgType = ''/cosmwasm.wasm.v1.MsgExecuteContract''
                    \<and> stringField (map_of obj ''sender'') \<noteq> None
                    \<and> stringField (map_of obj ''contract'') \<noteq> None
                    \<and> isArray (map_of obj ''funds'')
                 then coinTransfers (the (stringField (map_of obj ''sender'')))
                        (the (stringField (map_of obj ''contract''))) h
                        (arrayItems (map_of obj ''funds''))
                 else Inr []) (\<lambda>fromFunds.
          bindE (if msgType = ''/cosmos.bank.v1beta1.MsgSend''
                    \<and> stringField (map_of obj ''from_address'') \<noteq> None
                    \<and> stringField (map_of obj ''to_address'') \<noteq> None
                    \<and> isArray (map_of obj ''amount'')
                 then coinTransfers (the (stringField (map_of obj ''from_address'')))
                        (the (stringField (map_of obj ''to_address''))) h
                        (arrayItems (map_of obj ''amount''))
                 else Inr []) (\<lambda>fromCoins. Inr (fromFunds @ fromCoins)))))"

definition extractFromMessageBodies :: "json \<Rightarrow> js_error + TxSendEvent list" where
  "extractFromMessageBodies payload =
     (case extractTxHash payload of
        None \<Rightarrow> Inr []
      | Some h \<Rightarrow>
          if h = [] then Inr []
          else bindE (mapE (messageBodyVisit h) (walk payload)) (\<lambda>xs. Inr (concat xs)))"

text \<open>
  \<open>extractTxSendEvents\<close>: the cascade.  A strategy is run only when the ones before it
  returned the empty list; an exception thrown inside a strategy leaves the function.
\<close>

definition extractTxSendEvents ::
    "(string \<Rightarrow> string option) \<Rightarrow> json \<Rightarrow> js_error + TxSendEvent list" where
  "extractTxSendEvents b64 payload =
     (if directScan payload \<noteq> [] then Inr (directScan payload)
      else if extractFromCosmosEventStyle payload \<noteq> []
      then Inr (extractFromCosmosEventStyle payload)
      else bindE (extractFromTendermintEventArray b64 payload) (\<lambda>tendermintEvents.
             if tendermintEvents \<noteq> [] then Inr tendermintEvents
             else extractFromMessageBodies payload))"

section \<open>Normalization and amounts\<close>

record NormalizedTransfer =
  nSender :: string
  nRecipient :: string
  amountUzig :: int
  nDenom :: string
  nTxhash :: string

text \<open>\<open>BigInt(s)\<close> for a string of decimal digits, and \<open>toString\<close> of a bigint.\<close>

definition digitValue :: "char \<Rightarrow> int" where
  "digitValue c = int (of_char c - of_char CHR ''0'' :: nat)"

definition digitsToInt :: "string \<Rightarrow> int" where
  "digitsToInt s = foldl (\<lambda>acc c. 10 * acc + digitValue c) 0 s"

function natToString :: "nat \<Rightarrow> string" where
  "natToString n =
     (if n < 10 then [''0123456789'' ! n] else natToString (n div 10) @ [''0123456789'' ! (n mod 10)])"
  by pat_completeness auto
termination
  by (relation "measure id") auto

declare natToString.simps [simp del]

definition bigintToString :: "int \<Rightarrow> string" where
  "bigintToString i = (if i < 0 then ''-'' @ natToString (nat (- i)) else natToString (nat i))"

text \<open>
  Division and remainder of bigints truncate towards zero, and throw a RangeError when
  the divisor is zero.
\<close>

definition bigintDiv :: "int \<Rightarrow> int \<Rightarrow> js_error + int" where
  "bigintDiv a b = (if b = 0 then Inl RangeError else Inr (sgn a * sgn b * (\<bar>a\<bar> div \<bar>b\<bar>)))"

definition bigintRem :: "int \<Rightarrow> int \<Rightarrow> js_error + int" where
  "bigintRem a b = (if b = 0 then Inl RangeError else Inr (sgn a * (\<bar>a\<bar> mod \<bar>b\<bar>)))"

definition parseAmountToUzig :: "string \<Rightarrow> string \<Rightarrow> int option" where
  "parseAmountToUzig amountRaw den =
     (if allDigits amountRaw then Some (digitsToInt amountRaw)
      else if den \<noteq> [] \<and> endsWith (toLowerCase amountRaw) den
              \<and> allDigits (sliceOffEnd (toLowerCase amountRaw) (length den))
      then Some (digitsToInt (sliceOffEnd (toLowerCase amountRaw) (length den)))
      else None)"

definition normalizeTransfer :: "TxSendEvent \<Rightarrow> NormalizedTransfer option" where
  "normalizeTransfer event =
     (let s = trim (sender event);
          r = trim (recipient event);
          d = toLowerCase (trim (denom event));
          h = trim (txhash event)
      in if s = [] \<or> r = [] \<or> d = [] \<or> h = [] then None
         else (case parseAmountToUzig (trim (amount event)) d of
                 None \<Rightarrow> None
               | Some a \<Rightarrow>
                   if a \<le> 0 then None
                   else Some \<lparr>nSender = s, nRecipient = r, amountUzig = a, nDenom = d,
                               nTxhash = h\<rparr>))"

text \<open>
  \<open>addThousandsSeparators\<close>: \<open>replace(/\B(?=(\d{3})+(?!\d))/g, ",")\<close> puts a comma at
  every position that is not a word boundary and is followed by a run of digits whose
  length is a positive multiple of three.  As the next character is a digit there, the
  position is not a word boundary exactly when the previous character is a word
  character.
\<close>

definition digitRun :: "string \<Rightarrow> nat" where
  "digitRun s = length (takeWhile isDigit s)"

fun insertSeparators :: "char option \<Rightarrow> string \<Rightarrow> string" where
  "insertSeparators prev [] = []"
| "insertSeparators prev (c # cs) =
     (if (case prev of None \<Rightarrow> False | Some p \<Rightarrow> isWordChar p)
         \<and> 0 < digitRun (c # cs) \<and> digitRun (c # cs) mod 3 = 0
      then CHR '','' # c # insertSeparators (Some c) cs
      else c # insertSeparators (Some c) cs)"

definition addThousandsSeparators :: "string \<Rightarrow> string" where
  "addThousandsSeparators numStr = insertSeparators None numStr"

text \<open>\<open>padStart(6, "0")\<close> and \<open>replace(/0+$/, "")\<close>.\<close>

definition padStart6 :: "string \<Rightarrow> string" where
  "padStart6 s = replicate (6 - length s) CHR ''0'' @ s"

definition stripTrailingZeros :: "string \<Rightarrow> string" where
  "stripTrailingZeros s = rev (dropWhile (\<lambda>c. c = CHR ''0'') (rev s))"

definition formatZigAmount :: "int \<Rightarrow> int \<Rightarrow> js_error + string" where
  "formatZigAmount zigDecimals amt =
     bindE (bigintDiv amt zigDecimals) (\<lambda>whole.
     bindE (bigintRem amt zigDecimals) (\<lambda>fraction.
       if fraction = 0 then Inr (addThousandsSeparators (bigintToString whole))
       else Inr (addThousandsSeparators (bigintToString whole) @ ''.''
                 @ stripTrailingZeros (padStart6 (bigintToString fraction)))))"

section \<open>Configuration, effects and the enrichment lookup\<close>

record AppConfig =
  wsUrl :: string
  lcdUrl :: string
  telegramToken :: string
  telegramChatId :: "string option"
  monitoredWallets :: "string set"
  minAmountUzig :: int
  zigDecimals :: int
  maxSeenTxHashes :: int

datatype direction = Sent | Received

text \<open>The record passed to \<open>notifier.sendLargeTransferAlert\<close>.\<close>

record Alert =
  alertWallet :: string
  alertDirection :: direction
  alertAmountZig :: string
  alertAmountUzig :: string
  alertDenom :: string
  alertTxHash :: string
  alertSender :: string
  alertRecipient :: string
  alertEventType :: string
  alertContractAddress :: string
  alertAction :: "string option"
  alertOfferAsset :: "string option"
  alertAskAsset :: "string option"
  alertOfferAmount :: "string option"
  alertReturnAmount :: "string option"

text \<open>
  What the monitor does to the outside, in the order it does it: an HTTP GET, a sleep in
  milliseconds, a call of the notifier.  Console output is left out.  The outcome of a
  \<open>fetch\<close> is given by the environment: it throws (transport error, timeout), or answers
  with a status and a body, \<open>None\<close> when \<open>response.json()\<close> rejects; \<open>response.ok\<close> holds
  for the statuses 200 to 299.  The environment \<open>net\<close> gives the outcome of the \<open>n\<close>-th
  request of the process.
\<close>

datatype effect = Fetch string | Sleep nat | Notify Alert

datatype fetchResult = FetchThrew | Response nat "json option"

definition responseOk :: "nat \<Rightarrow> bool" where
  "responseOk status = (200 \<le> status \<and> status \<le> 299)"

definition isFetch :: "effect \<Rightarrow> bool" where
  "isFetch e = (case e of Fetch u \<Rightarrow> True | _ \<Rightarrow> False)"

definition numFetches :: "effect list \<Rightarrow> nat" where
  "numFetches tr = length (filter isFetch tr)"

definition alertsOf :: "effect list \<Rightarrow> Alert list" where
  "alertsOf tr = List.map_filter (\<lambda>e. case e of Notify a \<Rightarrow> Some a | _ \<Rightarrow> None) tr"

text \<open>\<open>x || null\<close> on a string that may be absent.\<close>

definition orNull :: "string option \<Rightarrow> string option" where
  "orNull v = orElse v None"

text \<open>
  \<open>extractWasmContextFromEventArray\<close>: the first event of type \<open>wasm\<close>; its attributes
  with non-empty trimmed key and value are put in a map, later keys overwriting.
\<close>

fun wasmAttrs :: "json list \<Rightarrow> (string \<rightharpoonup> string) \<Rightarrow> js_error + (string \<rightharpoonup> string)" where
  "wasmAttrs [] vals = Inr vals"
| "wasmAttrs (attrRaw # rest) vals =
     (case asRecord (Some attrRaw) of
        None \<Rightarrow> wasmAttrs rest vals
      | Some attr \<Rightarrow>
          bindE (stringOr (map_of attr ''key'')) (\<lambda>k.
          bindE (stringOr (map_of attr ''value'')) (\<lambda>v.
            if trim k \<noteq> [] \<and> trim v \<noteq> [] then wasmAttrs rest (vals(trim k \<mapsto> trim v))
            else wasmAttrs rest vals)))"

fun wasmContextOfEvents :: "json list \<Rightarrow> js_error + TxContext option" where
  "wasmContextOfEvents [] = Inr None"
| "wasmContextOfEvents (eventRaw # rest) =
     (case asRecord (Some eventRaw) of
        None \<Rightarrow> wasmContextOfEvents rest
      | Some event \<Rightarrow>
          bindE (stringOr (map_of event ''type'')) (\<lambda>ty.
            if toLowerCase ty \<noteq> ''wasm'' then wasmContextOfEvents rest
            else bindE (wasmAttrs (arrayItems (map_of event ''attributes'')) Map.empty)
                   (\<lambda>vals. Inr (Some \<lparr>eventType = Some ''wasm'',
                          contractAddress = orNull (vals ''_contract_address''),
                          action = orNull (vals ''action''),
                          offerAsset = orNull (vals ''offer_asset''),
                          askAsset = orNull (vals ''ask_asset''),
                          offerAmount = orNull (vals ''offer_amount''),
                          returnAmount = orNull (vals ''return_amount'')\<rparr>))))"

definition extractWasmContextFromEventArray :: "json option \<Rightarrow> js_error + TxContext option" where
  "extractWasmContextFromEventArray eventsRaw =
     (if isArray eventsRaw then wasmContextOfEvents (arrayItems eventsRaw) else Inr None)"

fun wasmContextOfLogs :: "json list \<Rightarrow> js_error + TxContext option" where
  "wasmContextOfLogs [] = Inr None"
| "wasmContextOfLogs (logRaw # rest) =
     (case asRecord (Some logRaw) of
        None \<Rightarrow> wasmContextOfLogs rest
      | Some logObj \<Rightarrow>
          if \<not> isArray (map_of logObj ''events'') then wasmContextOfLogs rest
          else bindE (extractWasmContextFromEventArray (map_of logObj ''events''))
                 (\<lambda>ctx. case ctx of Some c \<Rightarrow> Inr (Some c) | None \<Rightarrow> wasmContextOfLogs rest))"

definition extractWasmContextFromLogs :: "json option \<Rightarrow> js_error + TxContext option" where
  "extractWasmContextFromLogs logs =
     (if isArray logs then wasmContextOfLogs (arrayItems logs) else Inr None)"

definition extractTxContextFromLcd :: "json \<Rightarrow> js_error + TxContext option" where
  "extractTxContextFromLcd payload =
     (case asRecord (Some payload) of
        None \<Rightarrow> Inr None
      | Some rootObj \<Rightarrow>
          (let txResponse = asRecord (map_of rootObj ''tx_response'')
           in bindE (extractWasmContextFromLogs (getProp txResponse ''logs''))
                (\<lambda>fromLogs. case fromLogs of
                     Some c \<Rightarrow> Inr (Some c)
                   | None \<Rightarrow> extractWasmContextFromEventArray (getProp txResponse ''events''))))"

text \<open>
  One pass of the body of the retry loop in \<open>getTxContext\<close>, up to the point where it
  either returns a context or falls through: the context of an \<open>ok\<close> response whose body
  parses and holds a wasm event, and \<open>None\<close> in every other case (status not ok, no
  context in the body, or an exception, which the \<open>try\<close> catches).
\<close>

definition attemptContext :: "fetchResult \<Rightarrow> TxContext option" where
  "attemptContext res =
     (case res of
        FetchThrew \<Rightarrow> None
      | Response status body \<Rightarrow>
          if \<not> responseOk status then None
          else (case body of
                  None \<Rightarrow> None
                | Some payload \<Rightarrow>
                    (case extractTxContextFromLcd payload of Inl e \<Rightarrow> None | Inr ctx \<Rightarrow> ctx)))"

definition lcdTxUrl :: "string \<Rightarrow> string \<Rightarrow> string" where
  "lcdTxUrl base txHash =
     rev (dropWhile (\<lambda>c. c = CHR ''/'') (rev base)) @ ''/cosmos/tx/v1beta1/txs/'' @ txHash"

text \<open>
  The loop \<open>for (attempt = 1; attempt <= 3; attempt += 1)\<close>: a context found is stored in
  the cache and returned; otherwise the loop sleeps 1200 ms when \<open>attempt < 3\<close> and goes
  on; after the third attempt the function returns \<open>null\<close>, and stores nothing.
\<close>

function getTxContextLoop ::
    "(nat \<Rightarrow> fetchResult) \<Rightarrow> string \<Rightarrow> string \<Rightarrow> nat \<Rightarrow> monitor \<Rightarrow> effect list
     \<Rightarrow> TxContext option \<times> monitor \<times> effect list" where
  "getTxContextLoop net url txHash attempt m tr =
     (if attempt \<le> 3
      then (case attemptContext (net (numFetches tr)) of
              Some ctx \<Rightarrow>
                (Some ctx, m\<lparr>txContextCache := (txContextCache m)(txHash \<mapsto> Some ctx)\<rparr>,
                 tr @ [Fetch url])
            | None \<Rightarrow>
                getTxContextLoop net url txHash (attempt + 1) m
                  (if attempt < 3 then tr @ [Fetch url, Sleep 1200] else tr @ [Fetch url]))
      else (None, m, tr))"
  by pat_completeness auto
termination
  by (relation "measure (\<lambda>(net, url, txHash, attempt, m, tr). 4 - attempt)") auto

declare getTxContextLoop.simps [simp del]

definition getTxContext ::
    "AppConfig \<Rightarrow> (nat \<Rightarrow> fetchResult) \<Rightarrow> string \<Rightarrow> monitor \<Rightarrow> effect list
     \<Rightarrow> TxContext option \<times> monitor \<times> effect list" where
  "getTxContext cfg net txHash m tr =
     (case txContextCache m txHash of
        Some cached \<Rightarrow> (cached, m, tr)
      | None \<Rightarrow> getTxContextLoop net (lcdTxUrl (lcdUrl cfg) txHash) txHash 1 m tr)"

section \<open>The ingestion coordinator\<close>

text \<open>\<open>txContext?.field || null\<close>.\<close>

definition ctxField :: "(TxContext \<Rightarrow> string option) \<Rightarrow> TxContext option \<Rightarrow> string option" where
  "ctxField f ctx = (case ctx of None \<Rightarrow> None | Some c \<Rightarrow> orNull (f c))"

text \<open>
  \<open>sendAlert\<close>: one call of the notifier; a failure of the notifier is caught and
  logged, so the call is all that is seen of it.
\<close>

definition mkAlert ::
    "NormalizedTransfer \<Rightarrow> string \<Rightarrow> direction \<Rightarrow> string \<Rightarrow> TxContext option \<Rightarrow> Alert" where
  "mkAlert transfer wallet dir amountZig txContext =
     \<lparr>alertWallet = wallet,
      alertDirection = dir,
      alertAmountZig = amountZig,
      alertAmountUzig = bigintToString (amountUzig transfer),
      alertDenom = nDenom transfer,
      alertTxHash = nTxhash transfer,
      alertSender = nSender transfer,
      alertRecipient = nRecipient transfer,
      alertEventType = (case ctxField eventType txContext of Some s \<Rightarrow> s | None \<Rightarrow> ''wasm''),
      alertContractAddress =
        (case ctxField contractAddress txContext of Some s \<Rightarrow> s | None \<Rightarrow> nRecipient transfer),
      alertAction = ctxField action txContext,
      alertOfferAsset = ctxField offerAsset txContext,
      alertAskAsset = ctxField askAsset txContext,
      alertOfferAmount = ctxField offerAmount txContext,
      alertReturnAmount = ctxField returnAmount txContext\<rparr>"

definition sendAlert ::
    "NormalizedTransfer \<Rightarrow> string \<Rightarrow> direction \<Rightarrow> string \<Rightarrow> TxContext option \<Rightarrow> effect list
     \<Rightarrow> effect list" where
  "sendAlert transfer wallet dir amountZig txContext tr =
     tr @ [Notify (mkAlert transfer wallet dir amountZig txContext)]"

text \<open>
  The inner loop of \<open>handleRawMessage\<close> over the transfers of one hash: the watchlist,
  denomination and threshold filters, then one alert for each matching side.  An
  exception of \<open>formatZigAmount\<close> leaves the loop and the function.
\<close>

fun processTransfers ::
    "AppConfig \<Rightarrow> TxContext option \<Rightarrow> NormalizedTransfer list \<Rightarrow> effect list
     \<Rightarrow> js_error option \<times> effect list" where
  "processTransfers cfg txContext [] tr = (None, tr)"
| "processTransfers cfg txContext (n # rest) tr =
     (if nSender n \<notin> monitoredWallets cfg \<and> nRecipient n \<notin> monitoredWallets cfg
      then processTransfers cfg txContext rest tr
      else if nDenom n \<noteq> ''uzig'' then processTransfers cfg txContext rest tr
      else if amountUzig n < minAmountUzig cfg then processTransfers cfg txContext rest tr
      else (case formatZigAmount (zigDecimals cfg) (amountUzig n) of
              Inl e \<Rightarrow> (Some e, tr)
            | Inr amountZig \<Rightarrow>
                processTransfers cfg txContext rest
                  ((if nRecipient n \<in> monitoredWallets cfg
                    then sendAlert n (nRecipient n) Received amountZig txContext
                    else id)
                   ((if nSender n \<in> monitoredWallets cfg
                     then sendAlert n (nSender n) Sent amountZig txContext
                     else id) tr))))"

text \<open>
  The map \<open>txBuckets\<close>, in insertion order: the normalized transfers of the frame whose
  hash is not in \<open>seenTxHashes\<close>, grouped by hash.
\<close>

definition addToBucket ::
    "NormalizedTransfer \<Rightarrow> (string \<times> NormalizedTransfer list) list
     \<Rightarrow> (string \<times> NormalizedTransfer list) list" where
  "addToBucket n buckets =
     (if nTxhash n \<in> fst ` set buckets
      then map (\<lambda>b. if fst b = nTxhash n then (fst b, snd b @ [n]) else b) buckets
      else buckets @ [(nTxhash n, [n])])"

definition bucketStep ::
    "monitor \<Rightarrow> TxSendEvent \<Rightarrow> (string \<times> NormalizedTransfer list) list
     \<Rightarrow> (string \<times> NormalizedTransfer list) list" where
  "bucketStep m event buckets =
     (case normalizeTransfer event of
        None \<Rightarrow> buckets
      | Some n \<Rightarrow> if nTxhash n \<in> seenTxHashes m then buckets else addToBucket n buckets)"

definition txBuckets :: "monitor \<Rightarrow> TxSendEvent list \<Rightarrow> (string \<times> NormalizedTransfer list) list" where
  "txBuckets m events = fold (bucketStep m) events []"

text \<open>
  The outer loop: one lookup per hash, its transfers, then \<open>markSeen\<close>.
\<close>

fun processBuckets ::
    "AppConfig \<Rightarrow> (nat \<Rightarrow> fetchResult) \<Rightarrow> (string \<times> NormalizedTransfer list) list
     \<Rightarrow> monitor \<Rightarrow> effect list \<Rightarrow> js_error option \<times> monitor \<times> effect list" where
  "processBuckets cfg net [] m tr = (None, m, tr)"
| "processBuckets cfg net (b # rest) m tr =
     (case getTxContext cfg net (fst b) m tr of
        (txContext, m1, tr1) \<Rightarrow>
          (case processTransfers cfg txContext (snd b) tr1 of
             (Some e, tr2) \<Rightarrow> (Some e, m1, tr2)
           | (None, tr2) \<Rightarrow>
               processBuckets cfg net rest (markSeen (maxSeenTxHashes cfg) (fst b) m1) tr2))"

text \<open>
  \<open>logNonEventMessage\<close>: its only effect on the state is the counter of payloads that
  are neither an RPC error nor a subscription acknowledgement.
\<close>

definition logNonEventMessage :: "json \<Rightarrow> monitor \<Rightarrow> monitor" where
  "logNonEventMessage payload m =
     (case asRecord (Some payload) of
        None \<Rightarrow> m
      | Some obj \<Rightarrow>
          if asRecord (map_of obj ''error'') \<noteq> None then m
          else if truthy (getProp (asRecord (map_of obj ''result'')) ''query'')
                  \<and> stringField (getProp (asRecord (map_of obj ''result'')) ''query'') \<noteq> None
          then m
          else m\<lparr>nonEventMessageCount := nonEventMessageCount m + 1\<rparr>)"

text \<open>
  \<open>handleRawMessage\<close>, given the result \<open>parsed\<close> of \<open>JSON.parse(raw)\<close> (\<open>None\<close> when the
  frame is not JSON).  The result is the exception that left the function, if any, the
  monitor and the effects so far.  This is one delivery from its call to its end, with
  no step of another delivery in between.
\<close>

definition handleRawMessage ::
    "AppConfig \<Rightarrow> (string \<Rightarrow> string option) \<Rightarrow> (nat \<Rightarrow> fetchResult) \<Rightarrow> json option
     \<Rightarrow> monitor \<Rightarrow> effect list \<Rightarrow> js_error option \<times> monitor \<times> effect list" where
  "handleRawMessage cfg b64 net parsed m tr =
     (case parsed of
        None \<Rightarrow> (None, m, tr)
      | Some payload \<Rightarrow>
          (case extractTxSendEvents b64 payload of
             Inl e \<Rightarrow> (Some e, m, tr)
           | Inr events \<Rightarrow>
               if events = [] then (None, logNonEventMessage payload m, tr)
               else processBuckets cfg net (txBuckets m events) m tr))"

text \<open>
  Deliveries that overlap.  The socket's handler starts \<open>handleRawMessage\<close> and does not
  wait for its promise (\<open>void monitor.handleRawMessage(raw)\<close>), so a delivery runs until
  its first \<open>await\<close>, the next frame can start its own delivery while the first is
  suspended, and each goes on when what it waits for has settled.  A delivery waits for
  the promise of \<open>getTxContext\<close> when the cache answers, for \<open>fetch\<close>, for the timer of
  \<open>this.sleep(1200)\<close> and for the notifier.  What a delivery does between two waits
  touches the monitor's state in one piece, as the runtime has one thread.  The steps
  from a settled \<open>fetch\<close> to the next wait are taken together: the reading of the body,
  which is under the same \<open>try\<close> and reads the response only, and the return of
  \<open>getTxContext\<close> to the loop after the last attempt.

  A suspended delivery holds the bucket it is at and the buckets after it, which it
  built when it started.  The alerts of a bucket, and the exception that ends them if
  there is one, depend on the configuration, the context and the transfers only; they
  are listed when the context is known.
\<close>

type_synonym bucket = "string \<times> NormalizedTransfer list"

datatype suspended =
    AwaitCached "TxContext option" bucket "bucket list"
  | AwaitFetch nat bucket "bucket list"
  | AwaitSleep nat bucket "bucket list"
  | AwaitNotify "Alert list" "js_error option" bucket "bucket list"

datatype progress = Suspended suspended | Completed "js_error option"

datatype wake = CacheAnswered | FetchSettled fetchResult | TimerFired | NotifierSettled

definition bucketAlerts ::
    "AppConfig \<Rightarrow> TxContext option \<Rightarrow> NormalizedTransfer list \<Rightarrow> Alert list \<times> js_error option" where
  "bucketAlerts cfg txContext transfers =
     (alertsOf (snd (processTransfers cfg txContext transfers [])),
      fst (processTransfers cfg txContext transfers []))"

text \<open>
  \<open>enterBuckets\<close> is the head of the loop over the buckets, up to the first wait of
  \<open>getTxContext\<close>: the cache test, and on a miss the first request.
\<close>

definition enterBuckets ::
    "AppConfig \<Rightarrow> bucket list \<Rightarrow> monitor \<Rightarrow> effect list \<Rightarrow> progress \<times> monitor \<times> effect list" where
  "enterBuckets cfg buckets m tr =
     (case buckets of
        [] \<Rightarrow> (Completed None, m, tr)
      | b # rest \<Rightarrow>
          (case txContextCache m (fst b) of
             Some cached \<Rightarrow> (Suspended (AwaitCached cached b rest), m, tr)
           | None \<Rightarrow>
               (Suspended (AwaitFetch 1 b rest), m, tr @ [Fetch (lcdTxUrl (lcdUrl cfg) (fst b))])))"

text \<open>
  \<open>continueBucket\<close> goes on in the bucket \<open>b\<close> with the alerts that are left: the next
  call of the notifier, or after the last one the exception if there is one, and else
  \<open>markSeen\<close> and the next bucket.
\<close>

definition continueBucket ::
    "AppConfig \<Rightarrow> Alert list \<Rightarrow> js_error option \<Rightarrow> bucket \<Rightarrow> bucket list \<Rightarrow> monitor \<Rightarrow> effect list
     \<Rightarrow> progress \<times> monitor \<times> effect list" where
  "continueBucket cfg alerts err b rest m tr =
     (case alerts of
        a # others \<Rightarrow> (Suspended (AwaitNotify others err b rest), m, tr @ [Notify a])
      | [] \<Rightarrow>
          (case err of
             Some e \<Rightarrow> (Completed (Some e), m, tr)
           | None \<Rightarrow> enterBuckets cfg rest (markSeen (maxSeenTxHashes cfg) (fst b) m) tr))"

definition afterLookup ::
    "AppConfig \<Rightarrow> TxContext option \<Rightarrow> bucket \<Rightarrow> bucket list \<Rightarrow> monitor \<Rightarrow> effect list
     \<Rightarrow> progress \<times> monitor \<times> effect list" where
  "afterLookup cfg txContext b rest m tr =
     continueBucket cfg (fst (bucketAlerts cfg txContext (snd b)))
       (snd (bucketAlerts cfg txContext (snd b))) b rest m tr"

text \<open>
  \<open>startDelivery\<close> is \<open>handleRawMessage\<close> from its call to its first wait.
  \<open>resumeDelivery\<close> takes a suspended delivery from the event it waits for to its next
  wait or to its end; an event it does not wait for leaves it as it is.
\<close>

definition startDelivery ::
    "AppConfig \<Rightarrow> (string \<Rightarrow> string option) \<Rightarrow> json option \<Rightarrow> monitor \<Rightarrow> effect list
     \<Rightarrow> progress \<times> monitor \<times> effect list" where
  "startDelivery cfg b64 parsed m tr =
     (case parsed of
        None \<Rightarrow> (Completed None, m, tr)
      | Some payload \<Rightarrow>
          (case extractTxSendEvents b64 payload of
             Inl e \<Rightarrow> (Completed (Some e), m, tr)
           | Inr events \<Rightarrow>
               if events = [] then (Completed None, logNonEventMessage payload m, tr)
               else enterBuckets cfg (txBuckets m events) m tr))"

fun resumeDelivery ::
    "AppConfig \<Rightarrow> suspended \<Rightarrow> wake \<Rightarrow> monitor \<Rightarrow> effect list \<Rightarrow> progress \<times> monitor \<times> effect list" where
  "resumeDelivery cfg (AwaitCached cached b rest) CacheAnswered m tr =
     afterLookup cfg cached b rest m tr"
| "resumeDelivery cfg (AwaitFetch attempt b rest) (FetchSettled res) m tr =
     (case attemptContext res of
        Some ctx \<Rightarrow>
          afterLookup cfg (Some ctx) b rest
            (m\<lparr>txContextCache := (txContextCache m)(fst b \<mapsto> Some ctx)\<rparr>) tr
      | None \<Rightarrow>
          if attempt < 3 then (Suspended (AwaitSleep attempt b rest), m, tr @ [Sleep 1200])
          else afterLookup cfg None b rest m tr)"
| "resumeDelivery cfg (AwaitSleep attempt b rest) TimerFired m tr =
     (Suspended (AwaitFetch (attempt + 1) b rest), m, tr @ [Fetch (lcdTxUrl (lcdUrl cfg) (fst b))])"
| "resumeDelivery cfg (AwaitNotify alerts err b rest) NotifierSettled m tr =
     continueBucket cfg alerts err b rest m tr"
| "resumeDelivery cfg s w m tr = (Suspended s, m, tr)"

text \<open>
  One delivery taken through a list of events with no step of another delivery in
  between.
\<close>

fun resumeThrough ::
    "AppConfig \<Rightarrow> wake list \<Rightarrow> progress \<times> monitor \<times> effect list \<Rightarrow> progress \<times> monitor \<times> effect list" where
  "resumeThrough cfg [] p = p"
| "resumeThrough cfg (w # ws) (Suspended s, m, tr) = resumeThrough cfg ws (resumeDelivery cfg s w m tr)"
| "resumeThrough cfg (w # ws) (Completed e, m, tr) = (Completed e, m, tr)"

text \<open>
  Two frames of which the second arrives while the delivery of the first is at its
  first wait: both deliveries start on the state as the socket's handler finds it, then
  the first goes through its events \<open>ws1\<close> and the second through its events \<open>ws2\<close>.
\<close>

definition overlappedDeliveries ::
    "AppConfig \<Rightarrow> (string \<Rightarrow> string option) \<Rightarrow> json option \<Rightarrow> json option \<Rightarrow> wake list \<Rightarrow> wake list
     \<Rightarrow> monitor \<Rightarrow> effect list \<Rightarrow> (progress \<times> progress) \<times> monitor \<times> effect list" where
  "overlappedDeliveries cfg b64 parsed1 parsed2 ws1 ws2 m tr =
     (case startDelivery cfg b64 parsed1 m tr of
        (p1, m1, tr1) \<Rightarrow>
          (case startDelivery cfg b64 parsed2 m1 tr1 of
             (p2, m2, tr2) \<Rightarrow>
               (case resumeThrough cfg ws1 (p1, m2, tr2) of
                  (q1, m3, tr3) \<Rightarrow>
                    (case resumeThrough cfg ws2 (p2, m3, tr3) of
                       (q2, m4, tr4) \<Rightarrow> ((q1, q2), m4, tr4)))))"

text \<open>
  Deliveries one after the other, each run to its end before the next starts.  An
  exception that leaves a delivery rejects its promise, which the process logs; the
  next frame is delivered all the same.
\<close>

fun deliverAll ::
    "AppConfig \<Rightarrow> (string \<Rightarrow> string option) \<Rightarrow> (nat \<Rightarrow> fetchResult) \<Rightarrow> json list
     \<Rightarrow> monitor \<Rightarrow> effect list \<Rightarrow> monitor \<times> effect list" where
  "deliverAll cfg b64 net [] m tr = (m, tr)"
| "deliverAll cfg b64 net (payload # others) m tr =
     (case handleRawMessage cfg b64 net (Some payload) m tr of
        (e, m1, tr1) \<Rightarrow> deliverAll cfg b64 net others m1 tr1)"

text \<open>
  A delivery that runs alone: every event it waits for arrives before any other
  delivery starts.  The outcome of a request is the one that \<open>net\<close> gives for it, the
  request being the last of the trace; \<open>k\<close> bounds the number of events.
\<close>

definition wakeAlone :: "(nat \<Rightarrow> fetchResult) \<Rightarrow> suspended \<Rightarrow> effect list \<Rightarrow> wake" where
  "wakeAlone net s tr =
     (case s of
        AwaitCached cached b rest \<Rightarrow> CacheAnswered
      | AwaitFetch attempt b rest \<Rightarrow> FetchSettled (net (numFetches tr - 1))
      | AwaitSleep attempt b rest \<Rightarrow> TimerFired
      | AwaitNotify alerts err b rest \<Rightarrow> NotifierSettled)"

fun runAlone ::
    "AppConfig \<Rightarrow> (nat \<Rightarrow> fetchResult) \<Rightarrow> nat \<Rightarrow> progress \<times> monitor \<times> effect list
     \<Rightarrow> progress \<times> monitor \<times> effect list" where
  "runAlone cfg net 0 p = p"
| "runAlone cfg net (Suc k) (Suspended s, m, tr) =
     runAlone cfg net k (resumeDelivery cfg s (wakeAlone net s tr) m tr)"
| "runAlone cfg net (Suc k) (Completed e, m, tr) = (Completed e, m, tr)"

section \<open>The streaming connection\<close>

text \<open>
  The fields of \<open>ZigWebSocketClient\<close> that the message handler and the reconnect
  scheduling read and write; \<open>wsOpen\<close> says that \<open>this.ws\<close> is set and its
  \<open>readyState\<close> is \<open>OPEN\<close>.  The effects are a frame sent on the socket (the subscribe
  request, given by its id and query), a raw frame passed to \<open>options.onMessage\<close>, and
  a \<open>connect\<close> scheduled after a delay in milliseconds.
\<close>

record wsClient =
  wsOpen :: bool
  reconnectAttempts :: nat
  intentionalClose :: bool
  subscriptionIndex :: nat
  subscriptionId :: nat
  subscriptionConfirmed :: bool

datatype wsEffect = WsSend nat "string option" | Deliver string | ScheduleConnect int

definition subscriptionQueries :: "string list" where
  "subscriptionQueries = [''tm.event='' @ [CHR 0x27] @ ''Tx'' @ [CHR 0x27]]"

definition subscribeCurrentQuery :: "wsClient \<Rightarrow> wsClient \<times> wsEffect list" where
  "subscribeCurrentQuery c =
     (if \<not> wsOpen c then (c, [])
      else (c\<lparr>subscriptionId := subscriptionId c + 1\<rparr>,
            [WsSend (subscriptionId c + 1)
               (if subscriptionIndex c < length subscriptionQueries
                then Some (subscriptionQueries ! subscriptionIndex c) else None)]))"

text \<open>
  \<open>handleSubscriptionResponse\<close>; \<open>parse\<close> stands for \<open>JSON.parse\<close>, \<open>None\<close> when it
  throws.  The id of the frame is compared as a number with \<open>subscriptionId\<close>.
\<close>

definition handleSubscriptionResponse ::
    "(string \<Rightarrow> json option) \<Rightarrow> wsClient \<Rightarrow> string \<Rightarrow> wsClient \<times> wsEffect list" where
  "handleSubscriptionResponse parse c raw =
     (case asRecord (parse raw) of
        None \<Rightarrow> (c, [])
      | Some obj \<Rightarrow>
          (case map_of obj ''id'' of
             Some (JNum n) \<Rightarrow>
               if n \<noteq> natToString (subscriptionId c) then (c, [])
               else if truthy (map_of obj ''error'')
                       \<and> int (subscriptionIndex c) < int (length subscriptionQueries) - 1
               then subscribeCurrentQuery
                      (c\<lparr>subscriptionIndex := subscriptionIndex c + 1,
                         subscriptionConfirmed := False\<rparr>)
               else if truthy (map_of obj ''result'') \<and> \<not> subscriptionConfirmed c
               then (c\<lparr>subscriptionConfirmed := True\<rparr>, [])
               else (c, [])
           | _ \<Rightarrow> (c, [])))"

text \<open>The handler of the socket's \<open>message\<close> event, and a run of it over frames.\<close>

definition onMessage ::
    "(string \<Rightarrow> json option) \<Rightarrow> wsClient \<Rightarrow> string \<Rightarrow> wsClient \<times> wsEffect list" where
  "onMessage parse c raw =
     (case handleSubscriptionResponse parse c raw of
        (c', effs) \<Rightarrow> (c', effs @ [Deliver raw]))"

fun onMessages ::
    "(string \<Rightarrow> json option) \<Rightarrow> wsClient \<Rightarrow> string list \<Rightarrow> wsClient \<times> wsEffect list" where
  "onMessages parse c [] = (c, [])"
| "onMessages parse c (raw # frames) =
     (case onMessage parse c raw of
        (c', effs) \<Rightarrow>
          (case onMessages parse c' frames of (c'', effs') \<Rightarrow> (c'', effs @ effs')))"

definition delivered :: "wsEffect list \<Rightarrow> string list" where
  "delivered effs = List.map_filter (\<lambda>e. case e of Deliver raw \<Rightarrow> Some raw | _ \<Rightarrow> None) effs"

text \<open>
  \<open>calculateBackoffMs\<close>; \<open>rnd\<close> is the value of \<open>Math.random()\<close>, a number in the
  interval from 0 (included) to 1 (excluded).  The product \<open>rnd * 250\<close> is taken over
  the reals; the power \<open>2 ** attempt\<close> is exact, or infinite for attempts whose delay
  the minimum caps anyway.
\<close>

definition calculateBackoffMs :: "nat \<Rightarrow> real \<Rightarrow> int" where
  "calculateBackoffMs attempt rnd = min 30000 (1000 * 2 ^ attempt) + \<lfloor>rnd * 250\<rfloor>"

definition scheduleReconnect :: "wsClient \<Rightarrow> real \<Rightarrow> wsClient \<times> wsEffect list" where
  "scheduleReconnect c rnd =
     (c\<lparr>reconnectAttempts := reconnectAttempts c + 1\<rparr>,
      [ScheduleConnect (calculateBackoffMs (reconnectAttempts c) rnd)])"

text \<open>
  The floor \<open>min(maxDelay, baseDelay * 2^n)\<close> of the specification, and the mean delay of
  an attempt for a uniformly distributed \<open>rnd\<close>: the delay is constant on each of the 250
  intervals from \<open>j / 250\<close> to \<open>(j + 1) / 250\<close>, which have the same length.
\<close>

definition backoffFloor :: "nat \<Rightarrow> int" where
  "backoffFloor attempt = min 30000 (1000 * 2 ^ attempt)"

definition expectedBackoffMs :: "nat \<Rightarrow> real" where
  "expectedBackoffMs attempt =
     (\<Sum>j < 250. real_of_int (calculateBackoffMs attempt (real j / 250))) / 250"

section \<open>Concrete environments and scenarios\<close>

text \<open>
  A model of the runtime's \<open>Buffer.from(s, "base64").toString("utf-8")\<close> for the
  standard alphabet: the characters before the first padding sign are read as six-bit
  values, every four of them give three bytes, a rest of three or two gives two bytes or
  one.  It describes the runtime for decoded bytes below 128, which UTF-8 reads as the
  characters with these codes; it is used for concrete inputs only.
\<close>

definition base64Index :: "char \<Rightarrow> nat option" where
  "base64Index c =
     map_of (zip ''ABCDEFGHIJKLMNOPQRSTUVWXYZabcdefghijklmnopqrstuvwxyz0123456789+/'' [0 ..< 64]) c"

fun decodeSextets :: "nat list \<Rightarrow> nat list" where
  "decodeSextets (a # b # c # d # rest) =
     [a * 4 + b div 16, (b mod 16) * 16 + c div 4, (c mod 4) * 64 + d] @ decodeSextets rest"
| "decodeSextets [a, b, c] = [a * 4 + b div 16, (b mod 16) * 16 + c div 4]"
| "decodeSextets [a, b] = [a * 4 + b div 16]"
| "decodeSextets _ = []"

definition base64Decode :: "string \<Rightarrow> string option" where
  "base64Decode s =
     Some (map char_of
       (decodeSextets (List.map_filter base64Index (takeWhile (\<lambda>c. c \<noteq> CHR ''='') s))))"

text \<open>An enrichment endpoint that answers every request with HTTP 500.\<close>

definition http500 :: "nat \<Rightarrow> fetchResult" where
  "http500 n = Response 500 None"




definition scenarioUrl :: string where
  "scenarioUrl = ''https://public-zigchain-lcd.numia.xyz/cosmos/tx/v1beta1/txs/H1''"

text \<open>The effects of three failed attempts on the scenario's hash.\<close>

definition threeAttempts :: "effect list" where
  "threeAttempts =
     [Fetch scenarioUrl, Sleep 1200, Fetch scenarioUrl, Sleep 1200, Fetch scenarioUrl]"

text \<open>The candidate and the normalized transfer of the scenario's frame.\<close>

definition scenarioEvent :: TxSendEvent where
  "scenarioEvent =
     \<lparr>sender = ''A'', recipient = ''B'', amount = ''50000000'', denom = ''uzig'',
      txhash = ''H1''\<rparr>"

definition scenarioTransfer :: NormalizedTransfer where
  "scenarioTransfer =
     \<lparr>nSender = ''A'', nRecipient = ''B'', amountUzig = 50000000, nDenom = ''uzig'',
      nTxhash = ''H1''\<rparr>"

text \<open>
  The configuration of the scenarios: watchlist \<open>{A}\<close>, threshold 40,000,000 base
  units, scale 1,000,000, and the capacity of the ledger as a parameter.
\<close>

definition scenarioConfig :: "int \<Rightarrow> AppConfig" where
  "scenarioConfig cap =
     \<lparr>wsUrl = ''wss://zigchain-mainnet.zigscan.net/websocket'',
      lcdUrl = ''https://public-zigchain-lcd.numia.xyz'',
      telegramToken = ''token'',
      telegramChatId = None,
      monitoredWallets = {''A''},
      minAmountUzig = 40000000,
      zigDecimals = 1000000,
      maxSeenTxHashes = cap\<rparr>"

text \<open>
  The frame of the scenario as the specification writes it: in its text the key
  \<open>tx.hash\<close> comes after the closing brace of \<open>events\<close>, so it is a property of
  \<open>result\<close>.
\<close>

definition scenarioFrame :: json where
  "scenarioFrame =
     JObj [(''result'',
       JObj [(''events'',
                JObj [(''transfer.sender'', JArr [JStr ''A'']),
                      (''transfer.recipient'', JArr [JStr ''B'']),
                      (''transfer.amount'', JArr [JStr ''50000000uzig''])]),
             (''tx.hash'', JArr [JStr ''H1''])])]"

text \<open>The same frame with \<open>tx.hash\<close> inside the \<open>events\<close> map, where the code reads it.\<close>

definition eventsHashFrame :: json where
  "eventsHashFrame =
     JObj [(''result'',
       JObj [(''events'',
                JObj [(''transfer.sender'', JArr [JStr ''A'']),
                      (''transfer.recipient'', JArr [JStr ''B'']),
                      (''transfer.amount'', JArr [JStr ''50000000uzig'']),
                      (''tx.hash'', JArr [JStr ''H1''])])])]"

text \<open>
  The parsed frame \<open>{"txhash":"H","result":{"events":[{"type":{"toString":1}}]}}\<close>.
\<close>

definition toStringFrame :: json where
  "toStringFrame =
     JObj [(''txhash'', JStr ''H''),
           (''result'',
              JObj [(''events'', JArr [JObj [(''type'', JObj [(''toString'', JNum ''1'')])]])])]"

text \<open>The alert of the scenario when the lookup gave no context.\<close>

definition scenarioAlert :: Alert where
  "scenarioAlert = mkAlert scenarioTransfer ''A'' Sent ''50'' None"

text \<open>
  The parsed frame \<open>{"sender":"X","recipient":"Y","amount":"1","denom":"uzig","txhash":h}\<close>,
  a transfer between two wallets that are not on the watchlist, with its event and its
  normalized transfer; and the 9,999 hashes \<open>T1\<close>, \<open>T2\<close>, ..., \<open>T9999\<close>.
\<close>

definition fillerFrame :: "string \<Rightarrow> json" where
  "fillerFrame h =
     JObj [(''sender'', JStr ''X''), (''recipient'', JStr ''Y''), (''amount'', JStr ''1''),
           (''denom'', JStr ''uzig''), (''txhash'', JStr h)]"

definition fillerEvent :: "string \<Rightarrow> TxSendEvent" where
  "fillerEvent h =
     \<lparr>sender = ''X'', recipient = ''Y'', amount = ''1'', denom = ''uzig'', txhash = h\<rparr>"

definition fillerTransfer :: "string \<Rightarrow> NormalizedTransfer" where
  "fillerTransfer h =
     \<lparr>nSender = ''X'', nRecipient = ''Y'', amountUzig = 1, nDenom = ''uzig'', nTxhash = h\<rparr>"

definition fillerHashes :: "string list" where
  "fillerHashes = map (\<lambda>i. ''T'' @ natToString i) [1..<10000]"

text \<open>
  The events of a delivery that has one bucket and sends one alert, against an endpoint
  that answers its three requests with HTTP 500.
\<close>

definition failedLookupEvents :: "wake list" where
  "failedLookupEvents =
     [FetchSettled (Response 500 None), TimerFired, FetchSettled (Response 500 None), TimerFired,
      FetchSettled (Response 500 None), NotifierSettled]"

text \<open>
  The deliveries of the re-delivery scenario at the configured capacity of 10,000, all
  against an endpoint that answers HTTP 500.  \<open>overlapRun\<close>: on a fresh monitor the frame
  of \<open>H1\<close> arrives twice, the second time while the first delivery waits for its first
  request; the first delivery then runs to its end, and then the second.
  \<open>fillerRun\<close>: the frames of the 9,999 other hashes follow, one delivery after the
  other.  \<open>thirdDelivery\<close> and \<open>fourthDelivery\<close>: the frame of \<open>H1\<close> is delivered again,
  and once more after that delivery has completed.
\<close>

definition overlapRun :: "(progress \<times> progress) \<times> monitor \<times> effect list" where
  "overlapRun =
     overlappedDeliveries (scenarioConfig 10000) base64Decode (Some eventsHashFrame)
       (Some eventsHashFrame) failedLookupEvents failedLookupEvents newMonitor []"

definition fillerRun :: "monitor \<times> effect list" where
  "fillerRun =
     deliverAll (scenarioConfig 10000) base64Decode http500 (map fillerFrame fillerHashes)
       (fst (snd overlapRun)) (snd (snd overlapRun))"

definition thirdDelivery :: "js_error option \<times> monitor \<times> effect list" where
  "thirdDelivery =
     handleRawMessage (scenarioConfig 10000) base64Decode http500 (Some eventsHashFrame)
       (fst fillerRun) (snd fillerRun)"

definition fourthDelivery :: "js_error option \<times> monitor \<times> effect list" where
  "fourthDelivery =
     handleRawMessage (scenarioConfig 10000) base64Decode http500 (Some eventsHashFrame)
       (fst (snd thirdDelivery)) (snd (snd thirdDelivery))"

text \<open>
  The parsed values in which no object, at any depth, has an own key \<open>toString\<close>.
\<close>

fun noToStringKey :: "json \<Rightarrow> bool" where
  "noToStringKey (JArr xs) = (\<forall>x \<in> set xs. noToStringKey x)"
| "noToStringKey (JObj kvs) =
     (''toString'' \<notin> fst ` set kvs \<and> (\<forall>kv \<in> set kvs. noToStringKey (snd kv)))"
| "noToStringKey v = True"

definition noToStringKeyOpt :: "json option \<Rightarrow> bool" where
  "noToStringKeyOpt v = (case v of None \<Rightarrow> True | Some x \<Rightarrow> noToStringKey x)"

text \<open>
  The invariant of the ledger: the set holds exactly the entries of the sequence, which
  are distinct and not empty.
\<close>

definition ledgerInv :: "monitor \<Rightarrow> bool" where
  "ledgerInv m =
     (seenTxHashes m = set (txOrder m) \<and> distinct (txOrder m) \<and> [] \<notin> set (txOrder m))"

text \<open>
  What holds of the buckets built for a frame: their keys are distinct, not yet seen and
  not empty.
\<close>

definition bucketsOk :: "monitor \<Rightarrow> (string \<times> NormalizedTransfer list) list \<Rightarrow> bool" where
  "bucketsOk m bs =
     (distinct (map fst bs) \<and> (\<forall>k \<in> set (map fst bs). k \<notin> seenTxHashes m \<and> k \<noteq> []))"

section \<open>The dedup ledger\<close>

lemma txOrder_markSeen:
  "txOrder (markSeen c h m) =
     (if c < int (length (txOrder m)) + 1 then tl (txOrder m @ [h]) else txOrder m @ [h])"
  by (cases "txOrder m") (simp_all add: markSeen_def Let_def)

lemma seenTxHashes_markSeen:
  "seenTxHashes (markSeen c h m) =
     (if c < int (length (txOrder m)) + 1 \<and> hd (txOrder m @ [h]) \<noteq> []
      then insert h (seenTxHashes m) - {hd (txOrder m @ [h])}
      else insert h (seenTxHashes m))"
  by (cases "txOrder m") (simp_all add: markSeen_def Let_def)

lemma markSeen_fold_ledger:
  assumes "distinct hs" and "[] \<notin> set hs"
  shows "txOrder (fold (markSeen (int N)) hs newMonitor) = drop (length hs - N) hs
       \<and> seenTxHashes (fold (markSeen (int N)) hs newMonitor) = set (drop (length hs - N) hs)"
  using assms
proof (induction hs rule: rev_induct)
  case Nil
  show ?case by (simp add: newMonitor_def)
next
  case (snoc h hs)
  define m where "m = fold (markSeen (int N)) hs newMonitor"
  define od where "od = drop (length hs - N) hs"
  from snoc have ord: "txOrder m = od" and seen: "seenTxHashes m = set od"
    and dist: "distinct hs" and hnew: "h \<notin> set hs" and hne: "h \<noteq> []" and ne: "[] \<notin> set hs"
    by (auto simp: m_def od_def)
  have step: "fold (markSeen (int N)) (hs @ [h]) newMonitor = markSeen (int N) h m"
    by (simp add: m_def)
  show ?case
  proof (cases "length hs < N")
    case True
    then have "od = hs" by (simp add: od_def)
    then show ?thesis using True ord seen
      unfolding step txOrder_markSeen seenTxHashes_markSeen by simp
  next
    case False
    then have len: "N \<le> length hs" by simp
    have lo: "length od = N" using len by (simp add: od_def)
    have tgt: "drop (length (hs @ [h]) - N) (hs @ [h]) = tl (od @ [h])"
    proof (cases "N = 0")
      case True
      then show ?thesis by (simp add: od_def)
    next
      case False
      then have "od \<noteq> []" using lo by auto
      then have "tl (od @ [h]) = tl od @ [h]" by simp
      also have "tl od = drop (Suc (length hs - N)) hs" by (simp add: od_def drop_Suc tl_drop)
      finally show ?thesis using len False by (simp add: Suc_diff_le)
    qed
    have evict: "int N < int (length (txOrder m)) + 1" using ord lo by simp
    have "set od \<subseteq> set hs" by (simp add: od_def set_drop_subset)
    then have "[] \<notin> set (od @ [h])" using ne hne by auto
    then have hdne: "hd (od @ [h]) \<noteq> []"
      by (metis hd_in_set snoc_eq_iff_butlast)
    have "distinct (od @ [h])" using dist hnew \<open>set od \<subseteq> set hs\<close>
      by (auto simp: od_def)
    then have "insert h (set od) - {hd (od @ [h])} = set (tl (od @ [h]))"
      by (cases od) auto
    then show ?thesis using evict hdne ord seen
      unfolding step txOrder_markSeen seenTxHashes_markSeen tgt by simp
  qed
qed

text \<open>
  C1.  The hashes that reach \<open>markSeen\<close> are transaction hashes: its only caller passes
  the key of a bucket, which is the hash of a normalized transfer, trimmed and not empty
  (\<open>normalizeTransfer\<close> returns \<open>null\<close> otherwise).  For every capacity \<open>N\<close> and every
  sequence of \<open>N + k\<close> distinct transaction hashes (\<open>k \<ge> 1\<close>) marked on a fresh ledger:
  afterwards the ordered sequence is exactly the \<open>N\<close> most recently marked hashes, the set
  holds exactly those, none of the \<open>k\<close> oldest is a member, and after each \<open>markSeen\<close> on
  the way the set's members are the entries of the sequence, whose length is at most
  \<open>N\<close>.
\<close>

theorem markSeen_fifo:
  assumes "distinct hs" and "[] \<notin> set hs" and "length hs = N + k" and "1 \<le> k"
  shows "txOrder (fold (markSeen (int N)) hs newMonitor) = drop k hs
       \<and> seenTxHashes (fold (markSeen (int N)) hs newMonitor) = set (drop k hs)
       \<and> length (drop k hs) = N
       \<and> (\<forall>h \<in> set (take k hs). h \<notin> seenTxHashes (fold (markSeen (int N)) hs newMonitor))
       \<and> (\<forall>j \<le> length hs.
             seenTxHashes (fold (markSeen (int N)) (take j hs) newMonitor)
               = set (txOrder (fold (markSeen (int N)) (take j hs) newMonitor))
             \<and> length (txOrder (fold (markSeen (int N)) (take j hs) newMonitor)) \<le> N)"
proof -
  have k: "length hs - N = k" using assms(3) by simp
  have final: "txOrder (fold (markSeen (int N)) hs newMonitor) = drop k hs"
    "seenTxHashes (fold (markSeen (int N)) hs newMonitor) = set (drop k hs)"
    using markSeen_fold_ledger [OF assms(1,2), of N] k by simp_all
  have "distinct (take k hs @ drop k hs)" using assms(1) by simp
  then have old: "\<forall>h \<in> set (take k hs). h \<notin> set (drop k hs)"
    unfolding distinct_append by blast
  have mid: "seenTxHashes (fold (markSeen (int N)) (take j hs) newMonitor)
               = set (txOrder (fold (markSeen (int N)) (take j hs) newMonitor))
             \<and> length (txOrder (fold (markSeen (int N)) (take j hs) newMonitor)) \<le> N" for j
  proof -
    have d: "distinct (take j hs)" using assms(1) by simp
    have e: "[] \<notin> set (take j hs)" using assms(2) by (auto dest: in_set_takeD)
    show ?thesis using markSeen_fold_ledger [OF d e, of N] by simp
  qed
  show ?thesis using final old mid assms(3) by simp
qed

theorem markSeen_fifo_witness:
  "txOrder (fold (markSeen (int 2)) [''a'', ''b'', ''c''] newMonitor) = [''b'', ''c'']
   \<and> seenTxHashes (fold (markSeen (int 2)) [''a'', ''b'', ''c''] newMonitor) = {''b'', ''c''}
   \<and> ''a'' \<notin> seenTxHashes (fold (markSeen (int 2)) [''a'', ''b'', ''c''] newMonitor)"
  using markSeen_fifo [of "[''a'', ''b'', ''c'']" 2 1] by auto

text \<open>
  The guard \<open>if (oldest)\<close> of \<open>markSeen\<close> is false for the empty string, which is why the
  entries are taken to be not empty: an empty entry, were one marked, would stay in the
  set after its eviction from the sequence.
\<close>

lemma markSeen_empty_oldest:
  "txOrder (fold (markSeen (int 1)) [[], ''a''] newMonitor) = [''a'']
   \<and> [] \<in> seenTxHashes (fold (markSeen (int 1)) [[], ''a''] newMonitor)"
  by (simp add: markSeen_def newMonitor_def Let_def)

section \<open>Formatting amounts\<close>

lemma natToString_small: "n < 10 \<Longrightarrow> natToString n = [''0123456789'' ! n]"
  by (subst natToString.simps) simp

lemma natToString_big:
  "10 \<le> n \<Longrightarrow> natToString n = natToString (n div 10) @ [''0123456789'' ! (n mod 10)]"
  by (subst natToString.simps) simp

lemma set_insertSeparators: "set (insertSeparators p s) \<subseteq> insert CHR '','' (set s)"
  by (induction s arbitrary: p) auto

lemma natToString_chars: "set (natToString n) \<subseteq> set ''0123456789''"
proof (induction n rule: natToString.induct)
  case (1 n)
  have d: "''0123456789'' ! k \<in> set ''0123456789''" if "k < 10" for k
    using that by (intro nth_mem) simp
  show ?case
  proof (cases "n < 10")
    case True
    then show ?thesis using d[of n] by (simp only: natToString_small) simp
  next
    case False
    have "n mod 10 < 10" by simp
    from d[OF this] 1[OF False] False show ?thesis
      by (simp only: natToString_big[of n] set_append) auto
  qed
qed

lemma bigintToString_chars:
  "set (bigintToString i) \<subseteq> insert CHR ''-'' (set ''0123456789'')"
proof (cases "i < 0")
  case True
  then have "set (bigintToString i) = insert CHR ''-'' (set (natToString (nat (- i))))"
    by (simp add: bigintToString_def)
  then show ?thesis using natToString_chars[of "nat (- i)"] by blast
next
  case False
  then have "set (bigintToString i) = set (natToString (nat i))"
    by (simp add: bigintToString_def)
  then show ?thesis using natToString_chars[of "nat i"] by blast
qed

lemma separators_no_point: "CHR ''.'' \<notin> set (addThousandsSeparators (bigintToString i))"
proof
  assume "CHR ''.'' \<in> set (addThousandsSeparators (bigintToString i))"
  then have "CHR ''.'' \<in> insert CHR '','' (set (bigintToString i))"
    using set_insertSeparators[of None "bigintToString i"]
    unfolding addThousandsSeparators_def by blast
  then have "CHR ''.'' \<in> set (bigintToString i)" by simp
  then have "CHR ''.'' \<in> insert CHR ''-'' (set ''0123456789'')"
    using bigintToString_chars[of i] by blast
  then show False by simp
qed

lemma quotient_of_multiple:
  "s \<noteq> 0 \<Longrightarrow> sgn (k * s) * sgn s * (\<bar>k * s\<bar> div \<bar>s\<bar>) = (k::int)"
proof -
  assume s: "s \<noteq> 0"
  have "sgn s * sgn s = 1" using s by (simp add: sgn_if)
  then have "sgn (k * s) * sgn s = sgn k" by (simp add: sgn_mult mult.assoc)
  moreover have "\<bar>k * s\<bar> div \<bar>s\<bar> = \<bar>k\<bar>" using s by (simp add: abs_mult)
  ultimately show ?thesis by (simp add: mult_sgn_abs)
qed

lemma formatZigAmount_multiple:
  "s \<noteq> 0 \<Longrightarrow> formatZigAmount s (k * s) = Inr (addThousandsSeparators (bigintToString k))"
  using quotient_of_multiple[of s k]
  by (simp add: formatZigAmount_def bigintDiv_def bigintRem_def bindE_def abs_mult)

lemma natToString_nonzero: "0 < n \<Longrightarrow> \<exists>c \<in> set (natToString n). c \<noteq> CHR ''0''"
proof (induction n rule: natToString.induct)
  case (1 n)
  show ?case
  proof (cases "n < 10")
    case True
    then have "n \<in> {1,2,3,4,5,6,7,8,9}" using 1(2) by auto
    then show ?thesis using True by (auto simp add: natToString_small)
  next
    case False
    then have "0 < n div 10" by simp
    from 1(1)[OF False this] show ?thesis using False
      by (simp only: natToString_big[of n] set_append) blast
  qed
qed

lemma bigintToString_nonzero: "i \<noteq> 0 \<Longrightarrow> \<exists>c \<in> set (bigintToString i). c \<noteq> CHR ''0''"
proof (cases "i < 0")
  case True
  then show ?thesis by (simp add: bigintToString_def)
next
  case False
  assume "i \<noteq> 0"
  then have "0 < nat i" using False by simp
  from natToString_nonzero[OF this] show ?thesis using False by (simp add: bigintToString_def)
qed

lemma stripTrailingZeros_last:
  assumes "\<exists>c \<in> set s. c \<noteq> CHR ''0''"
  shows "stripTrailingZeros s \<noteq> [] \<and> last (stripTrailingZeros s) \<noteq> CHR ''0''"
proof -
  have ne: "dropWhile (\<lambda>c. c = CHR ''0'') (rev s) \<noteq> []"
    using assms by (auto simp: dropWhile_eq_Nil_conv)
  then have "hd (dropWhile (\<lambda>c. c = CHR ''0'') (rev s)) \<noteq> CHR ''0''"
    using hd_dropWhile[of "\<lambda>c. c = CHR ''0''" "rev s"] by blast
  then show ?thesis using ne by (simp add: stripTrailingZeros_def last_rev)
qed

lemma formatZigAmount_fraction:
  assumes "scale \<noteq> 0" and "\<not> scale dvd a"
  shows "formatZigAmount scale a =
           Inr (addThousandsSeparators (bigintToString (sgn a * sgn scale * (\<bar>a\<bar> div \<bar>scale\<bar>)))
                @ ''.'' @ stripTrailingZeros (padStart6 (bigintToString (sgn a * (\<bar>a\<bar> mod \<bar>scale\<bar>)))))
       \<and> stripTrailingZeros (padStart6 (bigintToString (sgn a * (\<bar>a\<bar> mod \<bar>scale\<bar>)))) \<noteq> []
       \<and> last (stripTrailingZeros (padStart6 (bigintToString (sgn a * (\<bar>a\<bar> mod \<bar>scale\<bar>)))))
           \<noteq> CHR ''0''"
proof -
  have "\<not> \<bar>scale\<bar> dvd \<bar>a\<bar>" using assms(2) by simp
  then have m: "\<bar>a\<bar> mod \<bar>scale\<bar> \<noteq> 0" by (simp add: dvd_eq_mod_eq_0)
  have "a \<noteq> 0" using assms(2) by auto
  then have fr: "sgn a * (\<bar>a\<bar> mod \<bar>scale\<bar>) \<noteq> 0" using m by (simp add: sgn_if)
  from bigintToString_nonzero[OF fr]
  have "\<exists>c \<in> set (padStart6 (bigintToString (sgn a * (\<bar>a\<bar> mod \<bar>scale\<bar>)))). c \<noteq> CHR ''0''"
    unfolding padStart6_def by auto
  from stripTrailingZeros_last[OF this] show ?thesis using assms(1) fr
    by (simp add: formatZigAmount_def bigintDiv_def bigintRem_def bindE_def)
qed

lemmas format_eval =
  formatZigAmount_def bigintDiv_def bigintRem_def bindE_def bigintToString_def
  natToString_small natToString_big addThousandsSeparators_def digitRun_def isDigit_def
  isWordChar_def padStart6_def stripTrailingZeros_def

text \<open>
  C8.  Formatting 1,234,567,890 base units with scale 1,000,000 gives \<open>1,234.56789\<close>.
  For every non-zero scale: an amount that is an exact multiple \<open>k\<close> of the scale is
  shown as \<open>k\<close> with thousands separators and without a decimal point; any other amount
  is shown as the separated integral part, a point, and the six-digit-padded remainder
  with its trailing zeros removed, which is not empty and does not end in a zero.
\<close>

theorem formatZigAmount_display:
  "formatZigAmount 1000000 1234567890 = Inr ''1,234.56789''
   \<and> (scale \<noteq> 0 \<longrightarrow>
        formatZigAmount scale (k * scale) = Inr (addThousandsSeparators (bigintToString k))
        \<and> CHR ''.'' \<notin> set (addThousandsSeparators (bigintToString k)))
   \<and> (scale \<noteq> 0 \<and> \<not> scale dvd a \<longrightarrow>
        formatZigAmount scale a =
          Inr (addThousandsSeparators (bigintToString (sgn a * sgn scale * (\<bar>a\<bar> div \<bar>scale\<bar>)))
               @ ''.''
               @ stripTrailingZeros (padStart6 (bigintToString (sgn a * (\<bar>a\<bar> mod \<bar>scale\<bar>)))))
        \<and> stripTrailingZeros (padStart6 (bigintToString (sgn a * (\<bar>a\<bar> mod \<bar>scale\<bar>)))) \<noteq> []
        \<and> last (stripTrailingZeros (padStart6 (bigintToString (sgn a * (\<bar>a\<bar> mod \<bar>scale\<bar>)))))
            \<noteq> CHR ''0'')"
proof -
  have ex: "formatZigAmount 1000000 1234567890 = Inr ''1,234.56789''"
    by (simp add: format_eval)
  show ?thesis
    using ex formatZigAmount_multiple[of scale k] separators_no_point[of k]
      formatZigAmount_fraction[of scale a]
    by blast
qed

theorem formatZigAmount_display_witness:
  "formatZigAmount 1000000 (5 * 1000000) = Inr ''5''
   \<and> formatZigAmount 1000000 1500000 = Inr ''1.5''"
  using formatZigAmount_display[of 1000000 5 1500000] by (simp add: format_eval)

section \<open>The base64 heuristic\<close>

lemma dropWhile_none: "\<forall>c \<in> set xs. \<not> P c \<Longrightarrow> dropWhile P xs = xs"
  by (cases xs) auto

lemma trim_no_space: "\<forall>c \<in> set s. \<not> isSpace c \<Longrightarrow> trim s = s"
  by (simp add: trim_def dropWhile_none)







section \<open>Reconnect backoff\<close>

lemma expectedBackoffMs_eq: "expectedBackoffMs n = real_of_int (backoffFloor n) + 249 / 2"
proof -
  have "(\<Sum>j<250. real_of_int (calculateBackoffMs n (real j / 250)))
        = (\<Sum>j<250. real_of_int (backoffFloor n) + real j)"
    by (simp add: calculateBackoffMs_def backoffFloor_def)
  also have "\<dots> = 250 * real_of_int (backoffFloor n) + (\<Sum>j<250. real j)"
    by (simp add: sum.distrib)
  also have "(\<Sum>j<250. real j) = real (\<Sum>j<250. j)" by simp
  also have "(\<Sum>j<250. j) = (250 * 249) div (2::nat)"
  proof -
    have "{..<250::nat} = {0..249}" by auto
    then show ?thesis using gauss_sum_nat[of 249] by simp
  qed
  finally show ?thesis by (simp add: expectedBackoffMs_def)
qed

lemma backoffFloor_mono: "backoffFloor n \<le> backoffFloor (Suc n)"
  by (simp add: backoffFloor_def min_def)

text \<open>
  C5 (amended).  For every attempt number \<open>n\<close> and every value \<open>rnd\<close> of the random
  source, from 0 (included) to 1 (excluded): the delay is \<open>min(30000, 1000 * 2^n)\<close> plus
  a jitter that is an integer from 0 to 249; the delay is at least the floor (it equals
  the floor when the jitter is 0) and less than the floor plus 250; the floor and the
  mean delay under uniform jitter, which is the floor plus 124.5, do not decrease from
  one attempt to the next.
\<close>

theorem calculateBackoffMs_bounds:
  assumes "0 \<le> rnd" and "rnd < 1"
  shows "calculateBackoffMs n rnd = backoffFloor n + \<lfloor>rnd * 250\<rfloor>
       \<and> 0 \<le> \<lfloor>rnd * 250\<rfloor> \<and> \<lfloor>rnd * 250\<rfloor> < 250
       \<and> backoffFloor n \<le> calculateBackoffMs n rnd
       \<and> calculateBackoffMs n rnd < backoffFloor n + 250
       \<and> backoffFloor n \<le> backoffFloor (Suc n)
       \<and> expectedBackoffMs n = real_of_int (backoffFloor n) + 249 / 2
       \<and> expectedBackoffMs n \<le> expectedBackoffMs (Suc n)"
proof -
  have j: "0 \<le> \<lfloor>rnd * 250\<rfloor> \<and> \<lfloor>rnd * 250\<rfloor> < 250"
    using assms by (simp add: floor_less_iff)
  have e: "expectedBackoffMs n \<le> expectedBackoffMs (Suc n)"
    using backoffFloor_mono[of n] by (simp add: expectedBackoffMs_eq)
  show ?thesis
    using j e backoffFloor_mono[of n] expectedBackoffMs_eq[of n]
    by (simp add: calculateBackoffMs_def backoffFloor_def)
qed

theorem calculateBackoffMs_bounds_witness:
  "(0::real) \<le> 1 / 2 \<and> (1::real) / 2 < 1 \<and> calculateBackoffMs 3 (1 / 2) = 8125
   \<and> backoffFloor 3 = 8000 \<and> expectedBackoffMs 3 \<le> expectedBackoffMs (Suc 3)"
  using calculateBackoffMs_bounds [of "1 / 2" 3] by (simp add: backoffFloor_def)

text \<open>
  C5 as stated fails when the random source gives 0: the jitter is 0 and the delay of
  attempt 0 is the floor itself, 1000 ms, not more.
\<close>

theorem calculateBackoffMs_counterexample:
  "calculateBackoffMs 0 0 = 1000 \<and> backoffFloor 0 = 1000
   \<and> \<not> backoffFloor 0 < calculateBackoffMs 0 0"
  by (simp add: calculateBackoffMs_def backoffFloor_def)

section \<open>Delivery of frames to the observer\<close>

lemma delivered_append: "delivered (xs @ ys) = delivered xs @ delivered ys"
  by (simp add: delivered_def List.map_filter_def)

lemma delivered_onMessage: "delivered (snd (onMessage parse c raw)) = [raw]"
  by (auto simp: onMessage_def handleSubscriptionResponse_def subscribeCurrentQuery_def
      delivered_def List.map_filter_simps subscriptionQueries_def
      split: option.splits json.splits prod.splits)

lemma delivered_onMessages: "delivered (snd (onMessages parse c frames)) = frames"
proof (induction frames arbitrary: c)
  case Nil
  show ?case by (simp add: delivered_def List.map_filter_simps)
next
  case (Cons raw frames)
  obtain c1 e1 where o: "onMessage parse c raw = (c1, e1)" by (cases "onMessage parse c raw")
  obtain c2 e2 where r: "onMessages parse c1 frames = (c2, e2)"
    by (cases "onMessages parse c1 frames")
  have "delivered e1 = [raw]" using delivered_onMessage[of parse c raw] o by simp
  moreover have "delivered e2 = frames" using Cons.IH[of c1] r by simp
  ultimately show ?case using o r by (simp add: delivered_append)
qed

text \<open>
  C10.  For every state of the client, every behaviour of the JSON parser and every raw
  frame, the message handler passes exactly that frame, once, to the observer, and it
  does so after the subscription layer has looked at it, whatever that layer did with
  it; over any sequence of frames the observer receives exactly the frames, each once,
  in the order of arrival.
\<close>

theorem onMessage_delivers_every_frame:
  "delivered (snd (onMessage parse c raw)) = [raw]
   \<and> snd (onMessage parse c raw) = snd (handleSubscriptionResponse parse c raw) @ [Deliver raw]
   \<and> delivered (snd (handleSubscriptionResponse parse c raw)) = []
   \<and> delivered (snd (onMessages parse c frames)) = frames"
proof -
  have a: "snd (onMessage parse c raw)
             = snd (handleSubscriptionResponse parse c raw) @ [Deliver raw]"
    by (simp add: onMessage_def split: prod.splits)
  have "delivered (snd (handleSubscriptionResponse parse c raw)) @ [raw] = [] @ [raw]"
    using delivered_onMessage[of parse c raw] unfolding a delivered_append
    by (simp add: delivered_def List.map_filter_simps)
  then have b: "delivered (snd (handleSubscriptionResponse parse c raw)) = []" by simp
  show ?thesis using a b delivered_onMessage delivered_onMessages by blast
qed

section \<open>The enrichment lookup\<close>

lemma numFetches_append: "numFetches (xs @ ys) = numFetches xs + numFetches ys"
  by (simp add: numFetches_def)

lemma numFetches_simps:
  "numFetches [] = 0"
  "numFetches (Fetch u # es) = Suc (numFetches es)"
  "numFetches (Sleep d # es) = numFetches es"
  "numFetches (Notify a # es) = numFetches es"
  by (simp_all add: numFetches_def isFetch_def)

lemma alertsOf_append: "alertsOf (xs @ ys) = alertsOf xs @ alertsOf ys"
  by (simp add: alertsOf_def List.map_filter_def)

lemma alertsOf_simps:
  "alertsOf [] = []"
  "alertsOf (Fetch u # es) = alertsOf es"
  "alertsOf (Sleep d # es) = alertsOf es"
  "alertsOf (Notify a # es) = a # alertsOf es"
  by (simp_all add: alertsOf_def List.map_filter_simps)

lemma getTxContextLoop_found:
  "attempt \<le> 3 \<Longrightarrow> attemptContext (net (numFetches tr)) = Some ctx \<Longrightarrow>
   getTxContextLoop net url h attempt m tr
     = (Some ctx, m\<lparr>txContextCache := (txContextCache m)(h \<mapsto> Some ctx)\<rparr>, tr @ [Fetch url])"
  by (subst getTxContextLoop.simps) simp

lemma getTxContextLoop_retry:
  "attempt \<le> 3 \<Longrightarrow> attemptContext (net (numFetches tr)) = None \<Longrightarrow>
   getTxContextLoop net url h attempt m tr
     = getTxContextLoop net url h (Suc attempt) m
         (if attempt < 3 then tr @ [Fetch url, Sleep 1200] else tr @ [Fetch url])"
  by (subst getTxContextLoop.simps) simp

lemma getTxContextLoop_exit:
  "3 < attempt \<Longrightarrow> getTxContextLoop net url h attempt m tr = (None, m, tr)"
  by (subst getTxContextLoop.simps) simp

lemma getTxContextLoop_fail3:
  assumes "attemptContext (net (numFetches tr)) = None"
    and "attemptContext (net (numFetches tr + 1)) = None"
    and "attemptContext (net (numFetches tr + 2)) = None"
  shows "getTxContextLoop net url h 1 m tr
           = (None, m, tr @ [Fetch url, Sleep 1200, Fetch url, Sleep 1200, Fetch url])"
proof -
  have 1: "getTxContextLoop net url h 1 m tr
             = getTxContextLoop net url h (Suc 1) m (tr @ [Fetch url, Sleep 1200])"
    using assms(1) by (simp add: getTxContextLoop_retry)
  have 2: "getTxContextLoop net url h (Suc 1) m (tr @ [Fetch url, Sleep 1200])
             = getTxContextLoop net url h (Suc (Suc 1)) m
                 (tr @ [Fetch url, Sleep 1200, Fetch url, Sleep 1200])"
    using assms(2) by (simp add: getTxContextLoop_retry numFetches_append numFetches_simps)
  have 3: "getTxContextLoop net url h (Suc (Suc 1)) m
             (tr @ [Fetch url, Sleep 1200, Fetch url, Sleep 1200])
             = getTxContextLoop net url h (Suc (Suc (Suc 1))) m
                 (tr @ [Fetch url, Sleep 1200, Fetch url, Sleep 1200, Fetch url])"
    using assms(3) by (simp add: getTxContextLoop_retry numFetches_append numFetches_simps)
  have 4: "getTxContextLoop net url h (Suc (Suc (Suc 1))) m tr' = (None, m, tr')" for tr'
    by (simp add: getTxContextLoop_exit)
  show ?thesis unfolding 1 2 3 4 ..
qed

lemma getTxContextLoop_result:
  "getTxContextLoop net url h a m tr = (r, m1, tr1) \<Longrightarrow>
     alertsOf tr1 = alertsOf tr \<and> numFetches tr \<le> numFetches tr1
     \<and> (case r of None \<Rightarrow> m1 = m
         | Some ctx \<Rightarrow> m1 = m\<lparr>txContextCache := (txContextCache m)(h \<mapsto> Some ctx)\<rparr>)"
proof (induction net url h a m tr rule: getTxContextLoop.induct)
  case (1 net url txHash attempt m tr)
  show ?case
  proof (cases "attempt \<le> 3")
    case False
    then show ?thesis using 1(2) by (simp add: getTxContextLoop_exit)
  next
    case True
    show ?thesis
    proof (cases "attemptContext (net (numFetches tr))")
      case (Some ctx)
      from getTxContextLoop_found[where attempt=attempt and net=net and tr=tr and ctx=ctx
          and url=url and h=txHash and m=m] True Some 1(2)
      have "r = Some ctx" "m1 = m\<lparr>txContextCache := (txContextCache m)(txHash \<mapsto> Some ctx)\<rparr>"
        "tr1 = tr @ [Fetch url]" by simp_all
      then show ?thesis by (simp add: alertsOf_append alertsOf_simps numFetches_append)
    next
      case None
      let ?tr = "if attempt < 3 then tr @ [Fetch url, Sleep 1200] else tr @ [Fetch url]"
      have "getTxContextLoop net url txHash (attempt + 1) m ?tr = (r, m1, tr1)"
        using getTxContextLoop_retry[where attempt=attempt and net=net and tr=tr
            and url=url and h=txHash and m=m] True None 1(2) by simp
      from 1(1)[OF True None this]
      show ?thesis
        by (auto simp: alertsOf_append alertsOf_simps numFetches_append numFetches_simps
            split: if_splits)
    qed
  qed
qed


lemma attemptContext_not_ok: "\<not> responseOk status \<Longrightarrow> attemptContext (Response status body) = None"
  by (simp add: attemptContext_def)

lemma getTxContext_result:
  assumes "getTxContext cfg net h m tr = (r, m1, tr1)"
  shows "alertsOf tr1 = alertsOf tr \<and> numFetches tr \<le> numFetches tr1
       \<and> seenTxHashes m1 = seenTxHashes m \<and> txOrder m1 = txOrder m
       \<and> (\<forall>k v. txContextCache m k = Some v \<longrightarrow> txContextCache m1 k = Some v)
       \<and> (\<forall>ctx. r = Some ctx \<longrightarrow> txContextCache m1 h = Some (Some ctx))
       \<and> (r = None \<longrightarrow> m1 = m)"
proof (cases "txContextCache m h")
  case (Some cached)
  then show ?thesis using assms by (auto simp: getTxContext_def)
next
  case None
  then have "getTxContextLoop net (lcdTxUrl (lcdUrl cfg) h) h 1 m tr = (r, m1, tr1)"
    using assms by (simp add: getTxContext_def)
  from getTxContextLoop_result[OF this] None show ?thesis
    by (cases r) auto
qed



lemma markSeen_cache: "txContextCache (markSeen c h m) = txContextCache m"
  by (cases "txOrder m") (simp_all add: markSeen_def Let_def)



lemmas json_eval =
  getProp_def arrayItems_def isArray_def orElse_def orNull_def stringOr_def stringNullish_def
  bindE_def toLowerCase_def toLowerChar_def trim_def isSpace_def

lemma scenario_url: "lcdTxUrl (lcdUrl (scenarioConfig cap)) ''H1'' = scenarioUrl"
  by (simp add: lcdTxUrl_def scenarioConfig_def scenarioUrl_def)

lemma attemptContext_http500: "attemptContext (http500 n) = None"
  by (simp add: http500_def attemptContext_def responseOk_def)



lemma getTxContext_fail3:
  assumes "txContextCache m h = None"
    and "attemptContext (net (numFetches tr)) = None"
    and "attemptContext (net (numFetches tr + 1)) = None"
    and "attemptContext (net (numFetches tr + 2)) = None"
  shows "getTxContext cfg net h m tr
           = (None, m, tr @ [Fetch (lcdTxUrl (lcdUrl cfg) h), Sleep 1200,
                             Fetch (lcdTxUrl (lcdUrl cfg) h), Sleep 1200,
                             Fetch (lcdTxUrl (lcdUrl cfg) h)])"
  unfolding getTxContext_def using assms(1) getTxContextLoop_fail3[OF assms(2-4)]
  by (simp del: One_nat_def)


lemma getTxContext_http500: "getTxContext (scenarioConfig cap) http500 ''H1'' newMonitor tr
   = (None, newMonitor, tr @ [Fetch scenarioUrl, Sleep 1200, Fetch scenarioUrl, Sleep 1200, Fetch scenarioUrl])"
  using getTxContext_fail3[of newMonitor "''H1''" http500 tr "scenarioConfig cap"]
  by (simp add: scenario_url attemptContext_http500 newMonitor_def)






lemma processTransfers_single:
  assumes "nSender n \<in> monitoredWallets cfg \<or> nRecipient n \<in> monitoredWallets cfg"
    and "nDenom n = ''uzig''" and "minAmountUzig cfg \<le> amountUzig n"
    and "formatZigAmount (zigDecimals cfg) (amountUzig n) = Inr z"
  shows "processTransfers cfg ctx [n] tr
     = (None, tr @ (if nSender n \<in> monitoredWallets cfg
                     then [Notify (mkAlert n (nSender n) Sent z ctx)] else [])
                 @ (if nRecipient n \<in> monitoredWallets cfg
                     then [Notify (mkAlert n (nRecipient n) Received z ctx)] else []))"
  using assms by (auto simp: sendAlert_def)

lemma formatZigAmount_total: "d \<noteq> 0 \<Longrightarrow> \<exists>z. formatZigAmount d a = Inr z"
  by (simp add: formatZigAmount_def bigintDiv_def bigintRem_def bindE_def)

text \<open>
  C9.  When the hash is not cached and the endpoint answers the next three requests
  with a status outside 200 to 299, the lookup makes exactly three requests with a sleep
  of 1200 ms between them, stores nothing and returns \<open>null\<close>; a transfer of the group
  that passes the filters is then alerted, once for each side on the watchlist, with
  \<open>eventType\<close> set to \<open>wasm\<close>, and the hash is marked seen.
\<close>

theorem lookup_failure_still_alerts:
  assumes "txContextCache m h = None"
    and "\<forall>i<3. \<exists>status body. net (numFetches tr + i) = Response status body \<and> \<not> responseOk status"
    and "nSender n \<in> monitoredWallets cfg \<or> nRecipient n \<in> monitoredWallets cfg"
    and "nDenom n = ''uzig''" and "minAmountUzig cfg \<le> amountUzig n"
    and "zigDecimals cfg \<noteq> 0"
  shows "getTxContext cfg net h m tr
           = (None, m, tr @ [Fetch (lcdTxUrl (lcdUrl cfg) h), Sleep 1200,
                             Fetch (lcdTxUrl (lcdUrl cfg) h), Sleep 1200,
                             Fetch (lcdTxUrl (lcdUrl cfg) h)])
       \<and> (\<exists>z. formatZigAmount (zigDecimals cfg) (amountUzig n) = Inr z
            \<and> processBuckets cfg net [(h, [n])] m tr
                = (None, markSeen (maxSeenTxHashes cfg) h m,
                   tr @ [Fetch (lcdTxUrl (lcdUrl cfg) h), Sleep 1200,
                         Fetch (lcdTxUrl (lcdUrl cfg) h), Sleep 1200,
                         Fetch (lcdTxUrl (lcdUrl cfg) h)]
                      @ (if nSender n \<in> monitoredWallets cfg
                         then [Notify (mkAlert n (nSender n) Sent z None)] else [])
                      @ (if nRecipient n \<in> monitoredWallets cfg
                         then [Notify (mkAlert n (nRecipient n) Received z None)] else [])))
       \<and> alertEventType (mkAlert n w d z' None) = ''wasm''"
proof -
  have f: "attemptContext (net (numFetches tr + i)) = None" if "i < 3" for i
    using assms(2) that by (auto simp: attemptContext_not_ok)
  have g: "getTxContext cfg net h m tr
           = (None, m, tr @ [Fetch (lcdTxUrl (lcdUrl cfg) h), Sleep 1200,
                             Fetch (lcdTxUrl (lcdUrl cfg) h), Sleep 1200,
                             Fetch (lcdTxUrl (lcdUrl cfg) h)])"
    using getTxContext_fail3[OF assms(1), of net tr cfg] f[of 0] f[of 1] f[of 2] by simp
  obtain z where z: "formatZigAmount (zigDecimals cfg) (amountUzig n) = Inr z"
    using formatZigAmount_total[OF assms(6)] by blast
  have p: "processBuckets cfg net [(h, [n])] m tr
                = (None, markSeen (maxSeenTxHashes cfg) h m,
                   tr @ [Fetch (lcdTxUrl (lcdUrl cfg) h), Sleep 1200,
                         Fetch (lcdTxUrl (lcdUrl cfg) h), Sleep 1200,
                         Fetch (lcdTxUrl (lcdUrl cfg) h)]
                      @ (if nSender n \<in> monitoredWallets cfg
                         then [Notify (mkAlert n (nSender n) Sent z None)] else [])
                      @ (if nRecipient n \<in> monitoredWallets cfg
                         then [Notify (mkAlert n (nRecipient n) Received z None)] else []))"
    using g processTransfers_single[OF assms(3,4,5) z, of None]
    by (simp del: processTransfers.simps)
  have e: "alertEventType (mkAlert n w d z' None) = ''wasm''"
    by (simp add: mkAlert_def ctxField_def)
  show ?thesis using g z p e by blast
qed

theorem lookup_failure_still_alerts_witness:
  "getTxContext (scenarioConfig 10000) http500 ''H1'' newMonitor [] = (None, newMonitor, threeAttempts)
   \<and> processBuckets (scenarioConfig 10000) http500 [(''H1'', [scenarioTransfer])] newMonitor []
       = (None, markSeen 10000 ''H1'' newMonitor,
          threeAttempts @ [Notify (mkAlert scenarioTransfer ''A'' Sent ''50'' None)])
   \<and> alertEventType (mkAlert scenarioTransfer ''A'' Sent ''50'' None) = ''wasm''"
proof -
  have f: "formatZigAmount 1000000 50000000 = Inr ''50''" by (simp add: format_eval)
  have c: "txContextCache newMonitor ''H1'' = None" by (simp add: newMonitor_def)
  have n: "\<forall>i<3. \<exists>status body. http500 (numFetches [] + i) = Response status body
             \<and> \<not> responseOk status"
    by (simp add: http500_def responseOk_def)
  show ?thesis
    using lookup_failure_still_alerts
      [where m=newMonitor and h="''H1''" and net=http500 and tr="[]" and n=scenarioTransfer
         and cfg="scenarioConfig 10000" and w="''A''" and d=Sent and z'="''50''", OF c n]
      f
    by (auto simp: scenarioConfig_def scenarioTransfer_def threeAttempts_def lcdTxUrl_def
        scenarioUrl_def)
qed

section \<open>The scenario frames\<close>

lemmas extract_eval =
  extractTxSendEvents_def directScan_def asTxSendEvent_def List.map_filter_simps
  extractFromCosmosEventStyle_def extractFromTendermintEventArray_def
  extractFromMessageBodies_def extractTxHash_def truthyString_def cosmosTransferAt_def
  pickAt_def
  splitAmount_def isAz09_def isDigit_def isLowerAz_def json_eval recordsOf_def
  messageBodyVisit_def transfersOfEvent_def

lemma extract_scenarioFrame: "extractTxSendEvents b64 scenarioFrame = Inr []"
  by (simp add: scenarioFrame_def extract_eval)

lemma extract_eventsHashFrame: "extractTxSendEvents b64 eventsHashFrame = Inr [scenarioEvent]"
  by (simp add: eventsHashFrame_def scenarioEvent_def extract_eval upt_rec)

lemma extract_toStringFrame: "extractTxSendEvents b64 toStringFrame = Inl TypeError"
  by (simp add: toStringFrame_def extract_eval)

lemma digitsToInt_scenario: "digitsToInt ''50000000'' = 50000000"
  by (simp add: digitsToInt_def digitValue_def)

lemma normalize_scenarioEvent: "normalizeTransfer scenarioEvent = Some scenarioTransfer"
  by (simp add: normalizeTransfer_def scenarioEvent_def scenarioTransfer_def
      parseAmountToUzig_def allDigits_def isDigit_def json_eval digitsToInt_scenario)

lemma txBuckets_scenarioEvent:
  "txBuckets m [scenarioEvent] = (if ''H1'' \<in> seenTxHashes m then [] else [(''H1'', [scenarioTransfer])])"
  by (simp add: txBuckets_def bucketStep_def normalize_scenarioEvent addToBucket_def scenarioTransfer_def)

lemma processTransfers_scenario:
  "processTransfers (scenarioConfig cap) ctx [scenarioTransfer] tr
     = (None, tr @ [Notify (mkAlert scenarioTransfer ''A'' Sent ''50'' ctx)])"
proof -
  have f: "formatZigAmount 1000000 50000000 = Inr ''50''" by (simp add: format_eval)
  show ?thesis
    using processTransfers_single[of scenarioTransfer "scenarioConfig cap" "''50''" ctx tr] f
    by (simp add: scenarioConfig_def scenarioTransfer_def del: processTransfers.simps)
qed

lemma handleRawMessage_eventsHashFrame:
  assumes "''H1'' \<notin> seenTxHashes m"
    and "getTxContext (scenarioConfig cap) net ''H1'' m tr = (ctx, m1, tr1)"
  shows "handleRawMessage (scenarioConfig cap) b64 net (Some eventsHashFrame) m tr
     = (None, markSeen cap ''H1'' m1, tr1 @ [Notify (mkAlert scenarioTransfer ''A'' Sent ''50'' ctx)])"
  using assms processTransfers_scenario[of cap ctx tr1]
  by (simp add: handleRawMessage_def extract_eventsHashFrame txBuckets_scenarioEvent
      scenarioConfig_def del: processTransfers.simps)

lemma handleRawMessage_scenarioFrame:
  "handleRawMessage cfg b64 net (Some scenarioFrame) m tr
     = (None, m\<lparr>nonEventMessageCount := nonEventMessageCount m + 1\<rparr>, tr)"
  by (simp add: handleRawMessage_def extract_scenarioFrame logNonEventMessage_def)
     (simp add: scenarioFrame_def json_eval)

section \<open>Deduplication across deliveries\<close>

lemma normalizeTransfer_hash_nonempty: "normalizeTransfer e = Some n \<Longrightarrow> nTxhash n \<noteq> []"
  by (auto simp: normalizeTransfer_def Let_def split: if_splits option.splits)

lemma markSeen_ledgerInv:
  assumes "ledgerInv m" and "h \<notin> seenTxHashes m" and "h \<noteq> []"
  shows "ledgerInv (markSeen c h m)"
proof -
  have d: "distinct (txOrder m @ [h])" and ne: "[] \<notin> set (txOrder m @ [h])"
    and s: "seenTxHashes m = set (txOrder m)"
    using assms by (auto simp: ledgerInv_def)
  have hdne: "hd (txOrder m @ [h]) \<noteq> []" using ne by (metis hd_in_set snoc_eq_iff_butlast)
  have t: "insert h (set (txOrder m)) - {hd (txOrder m @ [h])} = set (tl (txOrder m @ [h]))"
    using d by (cases "txOrder m") auto
  have dt: "distinct (tl (txOrder m @ [h]))" using d by (rule distinct_tl)
  have nt: "[] \<notin> set (tl (txOrder m @ [h]))" using ne by (metis list.sel(2) list.set_sel(2))
  show ?thesis
    unfolding ledgerInv_def txOrder_markSeen seenTxHashes_markSeen
    using d ne s hdne t dt nt by auto
qed

lemma markSeen_seen_subset: "seenTxHashes (markSeen c h m) \<subseteq> insert h (seenTxHashes m)"
  unfolding seenTxHashes_markSeen by auto

lemma markSeen_member:
  assumes "1 \<le> c" and "set (txOrder m) \<subseteq> seenTxHashes m" and "h \<notin> seenTxHashes m"
  shows "h \<in> seenTxHashes (markSeen c h m)"
proof (cases "txOrder m")
  case Nil
  then show ?thesis using assms(1) unfolding seenTxHashes_markSeen by simp
next
  case (Cons a as)
  then have "a \<in> seenTxHashes m" using assms(2) by auto
  then have "a \<noteq> h" using assms(3) by auto
  then show ?thesis using Cons unfolding seenTxHashes_markSeen by simp
qed

lemma markSeen_ledger_cong:
  "seenTxHashes m = seenTxHashes m' \<Longrightarrow> txOrder m = txOrder m' \<Longrightarrow>
   seenTxHashes (markSeen c h m) = seenTxHashes (markSeen c h m')
   \<and> txOrder (markSeen c h m) = txOrder (markSeen c h m')"
  unfolding seenTxHashes_markSeen txOrder_markSeen by simp

lemma fold_markSeen_cong:
  "seenTxHashes m = seenTxHashes m' \<Longrightarrow> txOrder m = txOrder m' \<Longrightarrow>
   seenTxHashes (fold (\<lambda>b. markSeen c (fst b)) bs m) = seenTxHashes (fold (\<lambda>b. markSeen c (fst b)) bs m')
   \<and> txOrder (fold (\<lambda>b. markSeen c (fst b)) bs m) = txOrder (fold (\<lambda>b. markSeen c (fst b)) bs m')"
proof (induction bs arbitrary: m m')
  case Nil
  then show ?case by simp
next
  case (Cons b bs)
  from markSeen_ledger_cong[OF Cons.prems, of c "fst b"]
  show ?case using Cons.IH[of "markSeen c (fst b) m" "markSeen c (fst b) m'"] by simp
qed

lemma processBuckets_ledger:
  "processBuckets cfg net bs m tr = (None, m1, tr1) \<Longrightarrow>
   seenTxHashes m1 = seenTxHashes (fold (\<lambda>b. markSeen (maxSeenTxHashes cfg) (fst b)) bs m)
   \<and> txOrder m1 = txOrder (fold (\<lambda>b. markSeen (maxSeenTxHashes cfg) (fst b)) bs m)"
proof (induction bs arbitrary: m tr)
  case Nil
  then show ?case by simp
next
  case (Cons b bs)
  obtain r m' tr' where g: "getTxContext cfg net (fst b) m tr = (r, m', tr')"
    by (cases "getTxContext cfg net (fst b) m tr")
  obtain e2 tr2 where p: "processTransfers cfg r (snd b) tr' = (e2, tr2)"
    by (cases "processTransfers cfg r (snd b) tr'")
  have e2: "e2 = None" using Cons.prems g p by (cases e2) auto
  then have rec: "processBuckets cfg net bs (markSeen (maxSeenTxHashes cfg) (fst b) m') tr2 = (None, m1, tr1)"
    using Cons.prems g p by simp
  have same: "seenTxHashes m' = seenTxHashes m" "txOrder m' = txOrder m"
    using getTxContext_result[OF g] by simp_all
  from markSeen_ledger_cong[OF same, of "maxSeenTxHashes cfg" "fst b"]
  have "seenTxHashes (markSeen (maxSeenTxHashes cfg) (fst b) m') = seenTxHashes (markSeen (maxSeenTxHashes cfg) (fst b) m)"
       "txOrder (markSeen (maxSeenTxHashes cfg) (fst b) m') = txOrder (markSeen (maxSeenTxHashes cfg) (fst b) m)"
    by simp_all
  from fold_markSeen_cong[OF this, of "maxSeenTxHashes cfg" bs] Cons.IH[OF rec]
  show ?case by simp
qed

lemma addToBucket_keys:
  "map fst (addToBucket n bs) = (if nTxhash n \<in> fst ` set bs then map fst bs else map fst bs @ [nTxhash n])"
  by (auto simp: addToBucket_def intro!: map_idI)

lemma bucketStep_ok: "bucketsOk m bs \<Longrightarrow> bucketsOk m (bucketStep m e bs)"
proof (cases "normalizeTransfer e")
  case None
  then show "bucketsOk m bs \<Longrightarrow> ?thesis" by (simp add: bucketStep_def)
next
  case (Some n)
  assume ok: "bucketsOk m bs"
  show ?thesis
  proof (cases "nTxhash n \<in> seenTxHashes m")
    case True
    then show ?thesis using ok Some by (simp add: bucketStep_def)
  next
    case False
    have ne: "nTxhash n \<noteq> []" using normalizeTransfer_hash_nonempty[OF Some] .
    have ks: "map fst (addToBucket n bs) = map fst bs
              \<or> map fst (addToBucket n bs) = map fst bs @ [nTxhash n] \<and> nTxhash n \<notin> set (map fst bs)"
      by (cases "nTxhash n \<in> fst ` set bs") (simp_all add: addToBucket_keys)
    have k: "set (map fst (addToBucket n bs)) \<subseteq> insert (nTxhash n) (set (map fst bs))"
    proof -
      have "set (map fst bs) \<subseteq> insert (nTxhash n) (set (map fst bs))" by (rule subset_insertI)
      moreover have "set (map fst bs @ [nTxhash n]) \<subseteq> insert (nTxhash n) (set (map fst bs))"
        by (simp del: set_map)
      ultimately show ?thesis using ks by metis
    qed
    have "distinct (map fst bs)" using ok unfolding bucketsOk_def by blast
    then have "distinct (map fst bs @ [nTxhash n])" if "nTxhash n \<notin> set (map fst bs)"
      using that by (simp del: set_map)
    then have d: "distinct (map fst (addToBucket n bs))"
      using ks \<open>distinct (map fst bs)\<close> by metis
    have "\<forall>k \<in> set (map fst (addToBucket n bs)). k \<notin> seenTxHashes m \<and> k \<noteq> []"
    proof
      fix x assume "x \<in> set (map fst (addToBucket n bs))"
      then have "x = nTxhash n \<or> x \<in> set (map fst bs)" using k by blast
      then show "x \<notin> seenTxHashes m \<and> x \<noteq> []"
      proof
        assume "x = nTxhash n"
        then show ?thesis using False ne by simp
      next
        assume x: "x \<in> set (map fst bs)"
        have "\<forall>k \<in> set (map fst bs). k \<notin> seenTxHashes m \<and> k \<noteq> []"
          using ok unfolding bucketsOk_def by (rule conjunct2)
        then show ?thesis using x by (rule bspec)
      qed
    qed
    with d have "bucketsOk m (addToBucket n bs)" unfolding bucketsOk_def by (rule conjI)
    then show ?thesis using Some False by (simp add: bucketStep_def)
  qed
qed

lemma fold_bucketStep_ok: "bucketsOk m acc \<Longrightarrow> bucketsOk m (fold (bucketStep m) events acc)"
  by (induction events arbitrary: acc) (simp_all add: bucketStep_ok)

lemma txBuckets_ok: "bucketsOk m (txBuckets m events)"
  unfolding txBuckets_def by (rule fold_bucketStep_ok) (simp add: bucketsOk_def)

lemma processBuckets_ledgerInv:
  "ledgerInv m \<Longrightarrow> bucketsOk m bs \<Longrightarrow> processBuckets cfg net bs m tr = (e, m1, tr1)
     \<Longrightarrow> ledgerInv m1"
proof (induction bs arbitrary: m tr)
  case Nil
  then show ?case by simp
next
  case (Cons b bs)
  obtain r m' tr' where g: "getTxContext cfg net (fst b) m tr = (r, m', tr')"
    by (cases "getTxContext cfg net (fst b) m tr")
  have same: "seenTxHashes m' = seenTxHashes m" "txOrder m' = txOrder m"
    using getTxContext_result[OF g] by simp_all
  then have inv': "ledgerInv m'" using Cons.prems(1) by (simp add: ledgerInv_def)
  obtain e2 tr2 where p: "processTransfers cfg r (snd b) tr' = (e2, tr2)"
    by (cases "processTransfers cfg r (snd b) tr'")
  show ?case
  proof (cases e2)
    case (Some err)
    then show ?thesis using Cons.prems(3) g p inv' by simp
  next
    case None
    let ?m = "markSeen (maxSeenTxHashes cfg) (fst b) m'"
    have rec: "processBuckets cfg net bs ?m tr2 = (e, m1, tr1)"
      using None Cons.prems(3) g p by simp
    have kb0: "fst b \<notin> seenTxHashes m \<and> fst b \<noteq> []"
      and kr: "\<forall>k \<in> set (map fst bs). k \<notin> seenTxHashes m \<and> k \<noteq> []"
      and db: "fst b \<notin> set (map fst bs)" and dr: "distinct (map fst bs)"
      using Cons.prems(2) unfolding bucketsOk_def by simp_all
    have kb: "fst b \<notin> seenTxHashes m'" "fst b \<noteq> []" using kb0 same by simp_all
    have i: "ledgerInv ?m" using markSeen_ledgerInv[OF inv' kb] .
    have sub: "seenTxHashes ?m \<subseteq> insert (fst b) (seenTxHashes m)"
      using markSeen_seen_subset[of "maxSeenTxHashes cfg" "fst b" m'] same by simp
    have "\<forall>k \<in> set (map fst bs). k \<notin> seenTxHashes ?m \<and> k \<noteq> []"
    proof
      fix k assume k: "k \<in> set (map fst bs)"
      then have "k \<noteq> fst b" using db by blast
      moreover have "k \<notin> seenTxHashes m \<and> k \<noteq> []" using kr k by (rule bspec)
      ultimately show "k \<notin> seenTxHashes ?m \<and> k \<noteq> []" using sub by auto
    qed
    with dr have o: "bucketsOk ?m bs" unfolding bucketsOk_def by (rule conjI)
    from Cons.IH[OF i o rec] show ?thesis .
  qed
qed

lemma ledgerInv_newMonitor: "ledgerInv newMonitor"
  by (simp add: ledgerInv_def newMonitor_def)

lemma handleRawMessage_ledgerInv:
  assumes "ledgerInv m" and "handleRawMessage cfg b64 net parsed m tr = (e, m1, tr1)"
  shows "ledgerInv m1"
proof (cases parsed)
  case None
  then show ?thesis using assms by (simp add: handleRawMessage_def)
next
  case (Some payload)
  show ?thesis
  proof (cases "extractTxSendEvents b64 payload")
    case (Inl err)
    then show ?thesis using assms Some by (simp add: handleRawMessage_def)
  next
    case (Inr events)
    show ?thesis
    proof (cases "events = []")
      case True
      then have "m1 = logNonEventMessage payload m"
        using assms(2) Some Inr by (simp add: handleRawMessage_def)
      then show ?thesis using assms(1)
        by (auto simp: ledgerInv_def logNonEventMessage_def split: option.splits)
    next
      case False
      then have "processBuckets cfg net (txBuckets m events) m tr = (e, m1, tr1)"
        using assms(2) Some Inr by (simp add: handleRawMessage_def)
      from processBuckets_ledgerInv[OF assms(1) txBuckets_ok this] show ?thesis .
    qed
  qed
qed

lemma bucketStep_single:
  assumes "\<forall>n. normalizeTransfer e = Some n \<longrightarrow> nTxhash n = h"
    and "acc = [] \<or> (\<exists>ns. acc = [(h, ns)])"
  shows "(bucketStep m e acc = [] \<or> (\<exists>ns. bucketStep m e acc = [(h, ns)]))
       \<and> (h \<in> seenTxHashes m \<longrightarrow> bucketStep m e acc = acc)"
  using assms by (auto simp: bucketStep_def addToBucket_def split: option.splits)

lemma fold_bucketStep_single:
  assumes "\<forall>e \<in> set events. \<forall>n. normalizeTransfer e = Some n \<longrightarrow> nTxhash n = h"
    and "acc = [] \<or> (\<exists>ns. acc = [(h, ns)])"
  shows "(fold (bucketStep m) events acc = [] \<or> (\<exists>ns. fold (bucketStep m) events acc = [(h, ns)]))
       \<and> (h \<in> seenTxHashes m \<longrightarrow> fold (bucketStep m) events acc = acc)"
  using assms
proof (induction events arbitrary: acc)
  case Nil
  then show ?case by simp
next
  case (Cons e events)
  have e: "\<forall>n. normalizeTransfer e = Some n \<longrightarrow> nTxhash n = h" using Cons.prems(1) by simp
  from bucketStep_single[OF e Cons.prems(2), of m]
  have s: "bucketStep m e acc = [] \<or> (\<exists>ns. bucketStep m e acc = [(h, ns)])"
    and k: "h \<in> seenTxHashes m \<longrightarrow> bucketStep m e acc = acc" by blast+
  have r: "\<forall>e \<in> set events. \<forall>n. normalizeTransfer e = Some n \<longrightarrow> nTxhash n = h"
    using Cons.prems(1) by simp
  from Cons.IH[OF r s] k show ?case by auto
qed

lemma txBuckets_single:
  assumes "\<forall>e \<in> set events. \<forall>n. normalizeTransfer e = Some n \<longrightarrow> nTxhash n = h"
  shows "(txBuckets m events = [] \<or> (\<exists>ns. txBuckets m events = [(h, ns)]))
       \<and> (h \<in> seenTxHashes m \<longrightarrow> txBuckets m events = [])"
  unfolding txBuckets_def using fold_bucketStep_single[OF assms, of "[]" m] by simp

text \<open>
  Deliveries one after the other.  A delivery that completes applies \<open>markSeen\<close> to the
  hash of every group it processed, in order, whether or not an alert was sent.  When
  the ledger satisfies its invariant, as it does in every state that deliveries reach
  from a fresh monitor one after the other, the capacity is at least 1 and all transfers
  of a frame carry the same hash, that hash is a member of the ledger after the delivery
  of the frame, and a second delivery of the same frame has no effect at all: no
  request and no alert, whatever the endpoint answers.
\<close>

lemma redelivery_sequential:
  assumes ex: "extractTxSendEvents b64 payload = Inr events"
    and single: "\<forall>e \<in> set events. \<forall>n. normalizeTransfer e = Some n \<longrightarrow> nTxhash n = h"
    and cap: "1 \<le> maxSeenTxHashes cfg"
    and inv: "ledgerInv m"
    and first: "handleRawMessage cfg b64 net (Some payload) m tr = (None, m1, tr1)"
  shows "seenTxHashes m1
           = seenTxHashes (fold (\<lambda>b. markSeen (maxSeenTxHashes cfg) (fst b)) (txBuckets m events) m)
       \<and> txOrder m1
           = txOrder (fold (\<lambda>b. markSeen (maxSeenTxHashes cfg) (fst b)) (txBuckets m events) m)
       \<and> (txBuckets m events \<noteq> [] \<longrightarrow> h \<in> seenTxHashes m1)
       \<and> fst (handleRawMessage cfg b64 net' (Some payload) m1 tr1) = None
       \<and> snd (snd (handleRawMessage cfg b64 net' (Some payload) m1 tr1)) = tr1
       \<and> alertsOf (snd (snd (handleRawMessage cfg b64 net' (Some payload) m1 tr1))) = alertsOf tr1"
proof (cases "events = []")
  case True
  then have m1: "m1 = logNonEventMessage payload m" and "tr1 = tr"
    using first ex by (simp_all add: handleRawMessage_def)
  then have l: "seenTxHashes m1 = seenTxHashes m" "txOrder m1 = txOrder m"
    by (auto simp: logNonEventMessage_def split: option.splits)
  have b: "txBuckets m events = []" using True by (simp add: txBuckets_def)
  show ?thesis using True ex l b by (simp add: handleRawMessage_def)
next
  case False
  then have pb: "processBuckets cfg net (txBuckets m events) m tr = (None, m1, tr1)"
    using first ex by (simp add: handleRawMessage_def)
  note led = processBuckets_ledger[OF pb]
  have second: "handleRawMessage cfg b64 net' (Some payload) m1 tr1 = (None, m1, tr1)"
    if "h \<in> seenTxHashes m1 \<or> txBuckets m events = []"
  proof -
    have "txBuckets m1 events = []"
    proof (cases "h \<in> seenTxHashes m1")
      case True
      then show ?thesis using txBuckets_single[OF single, of m1] by simp
    next
      case False
      then have e: "txBuckets m events = []" using that by simp
      then have "seenTxHashes m1 = seenTxHashes m" using led by simp
      then have "bucketStep m1 e acc = bucketStep m e acc" for e acc
        by (simp add: bucketStep_def split: option.splits)
      then have "bucketStep m1 = bucketStep m" by (intro ext)
      then have "txBuckets m1 events = txBuckets m events" by (simp add: txBuckets_def)
      then show ?thesis using e by simp
    qed
    then show ?thesis using False ex by (simp add: handleRawMessage_def)
  qed
  have marked: "h \<in> seenTxHashes m1" if ne: "txBuckets m events \<noteq> []"
  proof -
    obtain ns where b: "txBuckets m events = [(h, ns)]"
      using txBuckets_single[OF single, of m] ne by blast
    have "h \<notin> seenTxHashes m" using txBuckets_single[OF single, of m] ne by blast
    moreover have "set (txOrder m) \<subseteq> seenTxHashes m" using inv by (simp add: ledgerInv_def)
    ultimately have "h \<in> seenTxHashes (markSeen (maxSeenTxHashes cfg) h m)"
      using markSeen_member[OF cap] by blast
    then show ?thesis using led b by simp
  qed
  have "h \<in> seenTxHashes m1 \<or> txBuckets m events = []" using marked by blast
  from second[OF this] show ?thesis using led marked by simp
qed

text \<open>
  A delivery that runs alone is \<open>handleRawMessage\<close>: taken through the events it waits
  for, with the outcomes that \<open>net\<close> gives to its requests, a delivery completes after
  finitely many events, with the exception, the monitor and the effects of
  \<open>handleRawMessage\<close>.
\<close>

lemma runAlone_Completed: "runAlone cfg net k (Completed e, m, tr) = (Completed e, m, tr)"
  by (cases k) simp_all

lemma runAlone_add: "runAlone cfg net (j + k) p = runAlone cfg net k (runAlone cfg net j p)"
proof (induction j arbitrary: p)
  case 0
  show ?case by simp
next
  case (Suc j)
  obtain pr m tr where p: "p = (pr, m, tr)" by (cases p)
  show ?case
  proof (cases pr)
    case (Suspended s)
    then show ?thesis using Suc.IH by (simp add: p)
  next
    case (Completed e)
    then show ?thesis by (simp add: p runAlone_Completed)
  qed
qed

lemma alertsOf_map_Notify: "alertsOf (map Notify als) = als"
  by (induction als) (simp_all add: alertsOf_simps)

lemma processTransfers_appends:
  "\<exists>e als. \<forall>tr. processTransfers cfg ctx ts tr = (e, tr @ map Notify als)"
proof (induction ts)
  case Nil
  have "\<forall>tr. processTransfers cfg ctx [] tr = (None, tr @ map Notify [])" by simp
  then show ?case by blast
next
  case (Cons n ts)
  from Cons.IH obtain e als where ih: "\<And>tr. processTransfers cfg ctx ts tr = (e, tr @ map Notify als)"
    by blast
  show ?case
  proof (cases "(nSender n \<notin> monitoredWallets cfg \<and> nRecipient n \<notin> monitoredWallets cfg)
                \<or> nDenom n \<noteq> ''uzig'' \<or> amountUzig n < minAmountUzig cfg")
    case True
    then have "\<forall>tr. processTransfers cfg ctx (n # ts) tr = (e, tr @ map Notify als)"
      using ih by auto
    then show ?thesis by blast
  next
    case False
    show ?thesis
    proof (cases "formatZigAmount (zigDecimals cfg) (amountUzig n)")
      case (Inl err)
      then have "\<forall>tr. processTransfers cfg ctx (n # ts) tr = (Some err, tr @ map Notify [])"
        using False by auto
      then show ?thesis by blast
    next
      case (Inr z)
      define pre where "pre =
         (if nSender n \<in> monitoredWallets cfg then [mkAlert n (nSender n) Sent z ctx] else [])
         @ (if nRecipient n \<in> monitoredWallets cfg then [mkAlert n (nRecipient n) Received z ctx] else [])"
      have "\<forall>tr. processTransfers cfg ctx (n # ts) tr = (e, tr @ map Notify (pre @ als))"
        using False Inr ih by (auto simp: pre_def sendAlert_def)
      then show ?thesis by blast
    qed
  qed
qed

lemma processTransfers_bucketAlerts:
  "processTransfers cfg ctx ts tr
     = (snd (bucketAlerts cfg ctx ts), tr @ map Notify (fst (bucketAlerts cfg ctx ts)))"
proof -
  obtain e als where a: "\<And>tr. processTransfers cfg ctx ts tr = (e, tr @ map Notify als)"
    using processTransfers_appends[of cfg ctx ts] by blast
  have "bucketAlerts cfg ctx ts = (als, e)"
    unfolding bucketAlerts_def a[of "[]"] by (simp add: alertsOf_map_Notify)
  then show ?thesis using a[of tr] by simp
qed

lemma runAlone_alerts:
  "runAlone cfg net (length als) (continueBucket cfg als err b rest m tr)
     = (case err of
          Some e \<Rightarrow> (Completed (Some e), m, tr @ map Notify als)
        | None \<Rightarrow>
            enterBuckets cfg rest (markSeen (maxSeenTxHashes cfg) (fst b) m) (tr @ map Notify als))"
proof (induction als arbitrary: tr)
  case Nil
  show ?case by (simp add: continueBucket_def split: option.splits)
next
  case (Cons a als)
  have "runAlone cfg net (length (a # als)) (continueBucket cfg (a # als) err b rest m tr)
          = runAlone cfg net (length als) (continueBucket cfg als err b rest m (tr @ [Notify a]))"
    by (simp add: continueBucket_def wakeAlone_def)
  then show ?case unfolding Cons.IH by (cases err) simp_all
qed

lemma runAlone_fetch:
  assumes "a \<le> 3"
  shows "\<exists>k. runAlone cfg net k
               (Suspended (AwaitFetch a b rest), m, t @ [Fetch (lcdTxUrl (lcdUrl cfg) (fst b))])
             = (case getTxContextLoop net (lcdTxUrl (lcdUrl cfg) (fst b)) (fst b) a m t of
                  (ctx, m1, tr1) \<Rightarrow> afterLookup cfg ctx b rest m1 tr1)"
  using assms
proof (induction "3 - a" arbitrary: a t)
  case 0
  then have a: "a = 3" by simp
  let ?url = "lcdTxUrl (lcdUrl cfg) (fst b)"
  have w: "wakeAlone net (AwaitFetch x b rest) (t @ [Fetch ?url]) = FetchSettled (net (numFetches t))" for x
    by (simp add: wakeAlone_def numFetches_append numFetches_simps)
  show ?case
  proof (cases "attemptContext (net (numFetches t))")
    case None
    have "getTxContextLoop net ?url (fst b) a m t = (None, m, t @ [Fetch ?url])"
      using None a by (simp add: getTxContextLoop_retry getTxContextLoop_exit)
    moreover have "runAlone cfg net (Suc 0) (Suspended (AwaitFetch a b rest), m, t @ [Fetch ?url])
        = afterLookup cfg None b rest m (t @ [Fetch ?url])"
      using None a by (simp add: w)
    ultimately show ?thesis by (metis (mono_tags, lifting) case_prod_conv)
  next
    case (Some ctx)
    have "getTxContextLoop net ?url (fst b) a m t
        = (Some ctx, m\<lparr>txContextCache := (txContextCache m)(fst b \<mapsto> Some ctx)\<rparr>, t @ [Fetch ?url])"
      using Some a by (simp add: getTxContextLoop_found)
    moreover have "runAlone cfg net (Suc 0) (Suspended (AwaitFetch a b rest), m, t @ [Fetch ?url])
        = afterLookup cfg (Some ctx) b rest
            (m\<lparr>txContextCache := (txContextCache m)(fst b \<mapsto> Some ctx)\<rparr>) (t @ [Fetch ?url])"
      using Some by (simp add: w)
    ultimately show ?thesis by (metis (mono_tags, lifting) case_prod_conv)
  qed
next
  case (Suc d)
  then have a: "a < 3" by simp
  let ?url = "lcdTxUrl (lcdUrl cfg) (fst b)"
  have w: "wakeAlone net (AwaitFetch x b rest) (t @ [Fetch ?url]) = FetchSettled (net (numFetches t))" for x
    by (simp add: wakeAlone_def numFetches_append numFetches_simps)
  show ?case
  proof (cases "attemptContext (net (numFetches t))")
    case None
    have d: "d = 3 - Suc a" and le: "Suc a \<le> 3" using Suc.hyps(2) a by simp_all
    from Suc.hyps(1)[OF d le, of "t @ [Fetch ?url, Sleep 1200]"]
    obtain k where k: "runAlone cfg net k
               (Suspended (AwaitFetch (Suc a) b rest), m, (t @ [Fetch ?url, Sleep 1200]) @ [Fetch ?url])
             = (case getTxContextLoop net ?url (fst b) (Suc a) m (t @ [Fetch ?url, Sleep 1200]) of
                  (ctx, m1, tr1) \<Rightarrow> afterLookup cfg ctx b rest m1 tr1)" by blast
    have "getTxContextLoop net ?url (fst b) a m t
        = getTxContextLoop net ?url (fst b) (Suc a) m (t @ [Fetch ?url, Sleep 1200])"
      using None a by (simp add: getTxContextLoop_retry)
    moreover have "runAlone cfg net (Suc (Suc k)) (Suspended (AwaitFetch a b rest), m, t @ [Fetch ?url])
        = runAlone cfg net (Suc k)
            (Suspended (AwaitSleep a b rest), m, (t @ [Fetch ?url]) @ [Sleep 1200])"
      using None a by (simp add: w)
    moreover have "runAlone cfg net (Suc k)
            (Suspended (AwaitSleep a b rest), m, (t @ [Fetch ?url]) @ [Sleep 1200])
        = runAlone cfg net k
            (Suspended (AwaitFetch (Suc a) b rest), m, (t @ [Fetch ?url, Sleep 1200]) @ [Fetch ?url])"
      by (simp add: wakeAlone_def)
    ultimately show ?thesis using k by metis
  next
    case (Some ctx)
    have "getTxContextLoop net ?url (fst b) a m t
        = (Some ctx, m\<lparr>txContextCache := (txContextCache m)(fst b \<mapsto> Some ctx)\<rparr>, t @ [Fetch ?url])"
      using Some a by (simp add: getTxContextLoop_found)
    moreover have "runAlone cfg net (Suc 0) (Suspended (AwaitFetch a b rest), m, t @ [Fetch ?url])
        = afterLookup cfg (Some ctx) b rest
            (m\<lparr>txContextCache := (txContextCache m)(fst b \<mapsto> Some ctx)\<rparr>) (t @ [Fetch ?url])"
      using Some by (simp add: w)
    ultimately show ?thesis by (metis (mono_tags, lifting) case_prod_conv)
  qed
qed

lemma runAlone_lookup:
  "\<exists>k. runAlone cfg net k (enterBuckets cfg (b # rest) m tr)
         = (case getTxContext cfg net (fst b) m tr of
              (ctx, m1, tr1) \<Rightarrow> afterLookup cfg ctx b rest m1 tr1)"
proof (cases "txContextCache m (fst b)")
  case None
  then show ?thesis
    using runAlone_fetch[of 1 cfg net b rest m tr]
    by (simp add: enterBuckets_def getTxContext_def del: One_nat_def)
next
  case (Some cached)
  then have "runAlone cfg net (Suc 0) (enterBuckets cfg (b # rest) m tr)
      = (case getTxContext cfg net (fst b) m tr of
              (ctx, m1, tr1) \<Rightarrow> afterLookup cfg ctx b rest m1 tr1)"
    by (simp add: enterBuckets_def getTxContext_def wakeAlone_def)
  then show ?thesis by blast
qed

lemma runAlone_buckets:
  "\<exists>k. runAlone cfg net k (enterBuckets cfg bs m tr)
         = (Completed (fst (processBuckets cfg net bs m tr)), snd (processBuckets cfg net bs m tr))"
proof (induction bs arbitrary: m tr)
  case Nil
  have "runAlone cfg net 0 (enterBuckets cfg [] m tr)
         = (Completed (fst (processBuckets cfg net [] m tr)), snd (processBuckets cfg net [] m tr))"
    by (simp add: enterBuckets_def)
  then show ?case by blast
next
  case (Cons b rest)
  obtain ctx m1 tr1 where g: "getTxContext cfg net (fst b) m tr = (ctx, m1, tr1)"
    by (cases "getTxContext cfg net (fst b) m tr")
  define als where "als = fst (bucketAlerts cfg ctx (snd b))"
  define err where "err = snd (bucketAlerts cfg ctx (snd b))"
  define tr2 where "tr2 = tr1 @ map Notify als"
  have pt: "processTransfers cfg ctx (snd b) tr1 = (err, tr2)"
    using processTransfers_bucketAlerts[of cfg ctx "snd b" tr1] by (simp add: als_def err_def tr2_def)
  obtain k1 where k1: "runAlone cfg net k1 (enterBuckets cfg (b # rest) m tr)
      = continueBucket cfg als err b rest m1 tr1"
    using runAlone_lookup[of cfg net b rest m tr] by (auto simp: g afterLookup_def als_def err_def)
  note k2 = runAlone_alerts[of cfg net als err b rest m1 tr1]
  show ?case
  proof (cases err)
    case (Some e)
    have "runAlone cfg net (k1 + length als) (enterBuckets cfg (b # rest) m tr)
        = (Completed (Some e), m1, tr2)"
      unfolding runAlone_add k1 k2 by (simp add: Some tr2_def)
    moreover have "processBuckets cfg net (b # rest) m tr = (Some e, m1, tr2)"
      by (simp add: g pt Some del: processTransfers.simps)
    ultimately show ?thesis by (metis fst_conv snd_conv)
  next
    case None
    define m2 where "m2 = markSeen (maxSeenTxHashes cfg) (fst b) m1"
    from Cons.IH[of m2 tr2] obtain k3 where k3: "runAlone cfg net k3 (enterBuckets cfg rest m2 tr2)
         = (Completed (fst (processBuckets cfg net rest m2 tr2)), snd (processBuckets cfg net rest m2 tr2))"
      by blast
    have "runAlone cfg net (k1 + length als + k3) (enterBuckets cfg (b # rest) m tr)
        = (Completed (fst (processBuckets cfg net rest m2 tr2)), snd (processBuckets cfg net rest m2 tr2))"
      unfolding runAlone_add k1 k2 by (simp add: None tr2_def m2_def k3[unfolded tr2_def m2_def])
    moreover have "processBuckets cfg net (b # rest) m tr = processBuckets cfg net rest m2 tr2"
      by (simp add: g pt None m2_def del: processTransfers.simps)
    ultimately show ?thesis by metis
  qed
qed

lemma delivery_alone_is_handleRawMessage:
  "\<exists>k. runAlone cfg net k (startDelivery cfg b64 parsed m tr)
         = (Completed (fst (handleRawMessage cfg b64 net parsed m tr)),
            snd (handleRawMessage cfg b64 net parsed m tr))"
proof -
  have fin: "\<exists>k. runAlone cfg net k (Completed e, m', tr') = (Completed e, m', tr')" for e m' tr'
    by (rule exI[of _ 0]) simp
  show ?thesis
  proof (cases parsed)
    case None
    then show ?thesis using fin by (simp add: startDelivery_def handleRawMessage_def)
  next
    case (Some payload)
    show ?thesis
    proof (cases "extractTxSendEvents b64 payload")
      case (Inl e)
      then show ?thesis using fin Some by (simp add: startDelivery_def handleRawMessage_def)
    next
      case (Inr events)
      show ?thesis
      proof (cases "events = []")
        case True
        then show ?thesis using fin Some Inr by (simp add: startDelivery_def handleRawMessage_def)
      next
        case False
        then show ?thesis using runAlone_buckets[of cfg net "txBuckets m events" m tr] Some Inr
          by (simp add: startDelivery_def handleRawMessage_def)
      qed
    qed
  qed
qed

lemma maxSeenTxHashes_scenario: "maxSeenTxHashes (scenarioConfig cap) = cap"
  by (simp add: scenarioConfig_def)

lemma delivery_unseen:
  assumes "''H1'' \<notin> seenTxHashes m" and "txContextCache m ''H1'' = None"
  shows "handleRawMessage (scenarioConfig cap) b64 http500 (Some eventsHashFrame) m tr
     = (None, markSeen cap ''H1'' m, tr @ threeAttempts @ [Notify scenarioAlert])"
proof -
  have "getTxContext (scenarioConfig cap) http500 ''H1'' m tr = (None, m, tr @ threeAttempts)"
    using getTxContext_fail3[of m "''H1''" http500 tr "scenarioConfig cap"] assms(2)
    by (simp add: attemptContext_http500 scenario_url threeAttempts_def)
  from handleRawMessage_eventsHashFrame[OF assms(1) this, of b64]
  show ?thesis by (simp add: scenarioAlert_def)
qed

text \<open>
  The delivery of a frame of \<open>fillerFrame\<close> whose hash is not yet seen: three failed
  requests, no alert, and \<open>markSeen\<close>.  The hashes \<open>T1\<close>, ..., \<open>T9999\<close> are distinct,
  trimmed, not empty and different from \<open>H1\<close>.
\<close>

lemma extract_fillerFrame: "extractTxSendEvents b64 (fillerFrame h) = Inr [fillerEvent h]"
  by (simp add: fillerFrame_def fillerEvent_def extract_eval)

lemma normalize_fillerEvent:
  "trim h = h \<Longrightarrow> h \<noteq> [] \<Longrightarrow> normalizeTransfer (fillerEvent h) = Some (fillerTransfer h)"
  by (simp add: normalizeTransfer_def fillerEvent_def fillerTransfer_def
      parseAmountToUzig_def allDigits_def isDigit_def json_eval digitsToInt_def digitValue_def)

lemma txBuckets_fillerEvent:
  "trim h = h \<Longrightarrow> h \<noteq> [] \<Longrightarrow>
   txBuckets m [fillerEvent h] = (if h \<in> seenTxHashes m then [] else [(h, [fillerTransfer h])])"
  by (simp add: txBuckets_def bucketStep_def normalize_fillerEvent addToBucket_def fillerTransfer_def)

lemma processTransfers_filler:
  "processTransfers (scenarioConfig cap) ctx [fillerTransfer h] tr = (None, tr)"
  by (simp add: scenarioConfig_def fillerTransfer_def)

lemma handleRawMessage_fillerFrame:
  assumes "trim h = h" and "h \<noteq> []" and "h \<notin> seenTxHashes m" and "txContextCache m h = None"
  shows "handleRawMessage (scenarioConfig cap) b64 http500 (Some (fillerFrame h)) m tr
     = (None, markSeen cap h m,
        tr @ [Fetch (lcdTxUrl (lcdUrl (scenarioConfig cap)) h), Sleep 1200,
              Fetch (lcdTxUrl (lcdUrl (scenarioConfig cap)) h), Sleep 1200,
              Fetch (lcdTxUrl (lcdUrl (scenarioConfig cap)) h)])"
proof -
  have g: "getTxContext (scenarioConfig cap) http500 h m tr
     = (None, m, tr @ [Fetch (lcdTxUrl (lcdUrl (scenarioConfig cap)) h), Sleep 1200,
              Fetch (lcdTxUrl (lcdUrl (scenarioConfig cap)) h), Sleep 1200,
              Fetch (lcdTxUrl (lcdUrl (scenarioConfig cap)) h)])"
    by (rule getTxContext_fail3) (simp_all add: assms(4) attemptContext_http500)
  show ?thesis
    using assms(3)
    by (simp add: handleRawMessage_def extract_fillerFrame txBuckets_fillerEvent[OF assms(1,2)]
        g processTransfers_filler maxSeenTxHashes_scenario del: processTransfers.simps)
qed

lemma deliverAll_fillers:
  assumes "distinct hs" and "\<forall>h \<in> set hs. trim h = h \<and> h \<noteq> []"
    and "set hs \<inter> seenTxHashes m = {}" and "txContextCache m = Map.empty"
  shows "fst (deliverAll (scenarioConfig cap) b64 http500 (map fillerFrame hs) m tr)
           = fold (markSeen cap) hs m
       \<and> alertsOf (snd (deliverAll (scenarioConfig cap) b64 http500 (map fillerFrame hs) m tr))
           = alertsOf tr"
  using assms
proof (induction hs arbitrary: m tr)
  case Nil
  then show ?case by simp
next
  case (Cons h hs)
  have h: "trim h = h" "h \<noteq> []" "h \<notin> seenTxHashes m" "txContextCache m h = None"
    using Cons.prems by auto
  note step = handleRawMessage_fillerFrame[OF h, of cap b64 tr]
  have d: "distinct hs" and t: "\<forall>h \<in> set hs. trim h = h \<and> h \<noteq> []"
    using Cons.prems by auto
  have s: "set hs \<inter> seenTxHashes (markSeen cap h m) = {}"
    using markSeen_seen_subset[of cap h m] Cons.prems(1,3) by auto
  have c: "txContextCache (markSeen cap h m) = Map.empty"
    using Cons.prems(4) by (simp add: markSeen_cache)
  from Cons.IH[OF d t s c] show ?case
    by (simp add: step alertsOf_append alertsOf_simps)
qed

lemma digitValue_digit: "d < 10 \<Longrightarrow> digitValue (''0123456789'' ! d) = int d"
proof -
  assume "d < 10"
  then have "d \<in> {0, 1, 2, 3, 4, 5, 6, 7, 8, 9}" by auto
  then show ?thesis by (auto simp: digitValue_def)
qed

lemma digitsToInt_snoc: "digitsToInt (s @ [c]) = 10 * digitsToInt s + digitValue c"
  by (simp add: digitsToInt_def)

lemma digitsToInt_natToString: "digitsToInt (natToString n) = int n"
proof (induction n rule: natToString.induct)
  case (1 n)
  show ?case
  proof (cases "n < 10")
    case True
    then show ?thesis by (simp add: natToString_small digitsToInt_def digitValue_digit)
  next
    case False
    then have "natToString n = natToString (n div 10) @ [''0123456789'' ! (n mod 10)]"
      by (subst natToString.simps) simp
    moreover have "10 * int (n div 10) + int (n mod 10) = int n" by arith
    ultimately show ?thesis using 1[OF False] by (simp add: digitsToInt_snoc digitValue_digit)
  qed
qed

lemma natToString_inj:
  assumes "natToString i = natToString j"
  shows "i = j"
proof -
  have "int i = digitsToInt (natToString i)" by (simp only: digitsToInt_natToString)
  also have "\<dots> = digitsToInt (natToString j)" by (simp only: assms)
  also have "\<dots> = int j" by (simp only: digitsToInt_natToString)
  finally show ?thesis by (simp only: of_nat_eq_iff)
qed

lemma fillerHashes_distinct: "distinct fillerHashes"
proof -
  have "inj (\<lambda>i. ''T'' @ natToString i)" by (rule injI) (simp add: natToString_inj)
  then have "inj_on (\<lambda>i. ''T'' @ natToString i) (set [1..<10000])"
    by (rule inj_on_subset) (rule subset_UNIV)
  then show ?thesis unfolding fillerHashes_def
    by (rule iffD2[OF distinct_map, OF conjI[OF distinct_upt]])
qed

lemma fillerHashes_length: "length fillerHashes = 9999"
  unfolding fillerHashes_def by (simp only: length_map length_upt)

lemma fillerHashes_chars:
  assumes "h \<in> set fillerHashes"
  shows "trim h = h \<and> h \<noteq> [] \<and> h \<noteq> ''H1''"
proof -
  from assms have "h \<in> (\<lambda>i. ''T'' @ natToString i) ` set [1..<10000]"
    unfolding fillerHashes_def by (simp only: set_map)
  then obtain i where h: "h = ''T'' @ natToString i" by (rule imageE)
  have "\<forall>c \<in> set (natToString i). \<not> isSpace c"
  proof
    fix c assume "c \<in> set (natToString i)"
    then have "c \<in> set ''0123456789''" using natToString_chars[of i] by (rule rev_subsetD)
    then show "\<not> isSpace c" by (auto simp: isSpace_def)
  qed
  then have "\<forall>c \<in> set h. \<not> isSpace c" unfolding h by (simp add: isSpace_def)
  then have "trim h = h" by (rule trim_no_space)
  then show ?thesis unfolding h by simp
qed

lemma fold_markSeen_fits:
  "int (length (txOrder m) + length hs) \<le> c \<Longrightarrow>
   txOrder (fold (markSeen c) hs m) = txOrder m @ hs
   \<and> seenTxHashes (fold (markSeen c) hs m) = seenTxHashes m \<union> set hs
   \<and> txContextCache (fold (markSeen c) hs m) = txContextCache m"
proof (induction hs arbitrary: m)
  case Nil
  then show ?case by simp
next
  case (Cons h hs)
  have fit: "\<not> c < int (length (txOrder m)) + 1" using Cons.prems by simp
  have o: "txOrder (markSeen c h m) = txOrder m @ [h]"
    and s: "seenTxHashes (markSeen c h m) = insert h (seenTxHashes m)"
    unfolding txOrder_markSeen seenTxHashes_markSeen using fit by simp_all
  have "int (length (txOrder (markSeen c h m)) + length hs) \<le> c" using Cons.prems o by simp
  from Cons.IH[OF this] show ?case by (simp add: o s markSeen_cache)
qed

text \<open>
  The scenario of two overlapping deliveries of one frame, followed by 9,999 frames of
  other hashes and two more deliveries of the first frame.
\<close>

lemma startDelivery_unseen:
  assumes "''H1'' \<notin> seenTxHashes m" and "txContextCache m ''H1'' = None"
  shows "startDelivery (scenarioConfig cap) b64 (Some eventsHashFrame) m tr
     = (Suspended (AwaitFetch 1 (''H1'', [scenarioTransfer]) []), m, tr @ [Fetch scenarioUrl])"
  using assms
  by (simp add: startDelivery_def extract_eventsHashFrame txBuckets_scenarioEvent enterBuckets_def
      scenario_url)

lemma bucketAlerts_scenario:
  "bucketAlerts (scenarioConfig cap) None [scenarioTransfer] = ([scenarioAlert], None)"
  by (simp add: bucketAlerts_def processTransfers_scenario scenarioAlert_def alertsOf_simps
      del: processTransfers.simps)

lemma resumeThrough_failedLookup:
  "resumeThrough (scenarioConfig cap) failedLookupEvents
     (Suspended (AwaitFetch 1 (''H1'', [scenarioTransfer]) []), m, tr)
   = (Completed None, markSeen cap ''H1'' m,
      tr @ [Sleep 1200, Fetch scenarioUrl, Sleep 1200, Fetch scenarioUrl, Notify scenarioAlert])"
  by (simp add: failedLookupEvents_def attemptContext_not_ok responseOk_def afterLookup_def
      bucketAlerts_scenario continueBucket_def enterBuckets_def scenario_url
      maxSeenTxHashes_scenario)

lemma delivery_alone:
  assumes "''H1'' \<notin> seenTxHashes m" and "txContextCache m ''H1'' = None"
  shows "resumeThrough (scenarioConfig cap) failedLookupEvents
           (startDelivery (scenarioConfig cap) b64 (Some eventsHashFrame) m tr)
         = (Completed (fst (handleRawMessage (scenarioConfig cap) b64 http500 (Some eventsHashFrame) m tr)),
            snd (handleRawMessage (scenarioConfig cap) b64 http500 (Some eventsHashFrame) m tr))"
  by (simp add: startDelivery_unseen[OF assms] resumeThrough_failedLookup delivery_unseen[OF assms]
      threeAttempts_def del: One_nat_def)

lemma overlapRun_result:
  "overlapRun
   = ((Completed None, Completed None), markSeen 10000 ''H1'' (markSeen 10000 ''H1'' newMonitor),
      [Fetch scenarioUrl, Fetch scenarioUrl,
       Sleep 1200, Fetch scenarioUrl, Sleep 1200, Fetch scenarioUrl, Notify scenarioAlert,
       Sleep 1200, Fetch scenarioUrl, Sleep 1200, Fetch scenarioUrl, Notify scenarioAlert])"
proof -
  have n: "''H1'' \<notin> seenTxHashes newMonitor" "txContextCache newMonitor ''H1'' = None"
    by (simp_all add: newMonitor_def)
  show ?thesis
    by (simp add: overlapRun_def overlappedDeliveries_def startDelivery_unseen[OF n]
        resumeThrough_failedLookup del: One_nat_def)
qed

lemma overlap_ledger:
  "txOrder (fst (snd overlapRun)) = [''H1'', ''H1'']
   \<and> seenTxHashes (fst (snd overlapRun)) = {''H1''}
   \<and> txContextCache (fst (snd overlapRun)) = Map.empty
   \<and> alertsOf (snd (snd overlapRun)) = [scenarioAlert, scenarioAlert]"
  by (simp add: overlapRun_result txOrder_markSeen seenTxHashes_markSeen markSeen_cache
      newMonitor_def alertsOf_simps)

lemma fold_markSeen_evicts_first:
  assumes "hs \<noteq> []" and "int (length (txOrder m) + length hs) = c + 1"
    and "txOrder m = a # as" and "a \<noteq> []"
  shows "txOrder (fold (markSeen c) hs m) = as @ hs
       \<and> seenTxHashes (fold (markSeen c) hs m) = (seenTxHashes m \<union> set hs) - {a}
       \<and> txContextCache (fold (markSeen c) hs m) = txContextCache m"
proof -
  define m' where "m' = fold (markSeen c) (butlast hs) m"
  have hs: "hs = butlast hs @ [last hs]" using assms(1) by simp
  have len: "length (butlast hs) + 1 = length hs" using assms(1) by simp
  have "int (length (txOrder m) + length (butlast hs)) \<le> c" using assms(2) len by linarith
  from fold_markSeen_fits[OF this]
  have o: "txOrder m' = a # as @ butlast hs"
    and s: "seenTxHashes m' = seenTxHashes m \<union> set (butlast hs)"
    and k: "txContextCache m' = txContextCache m"
    by (simp_all add: m'_def assms(3))
  have full: "c < int (length (txOrder m')) + 1" using assms(2,3) len o by simp
  have "fold (markSeen c) hs m = fold (markSeen c) (butlast hs @ [last hs]) m" using hs by simp
  then have step: "fold (markSeen c) hs m = markSeen c (last hs) m'" by (simp add: m'_def)
  have "set hs = insert (last hs) (set (butlast hs))" by (subst hs) simp
  then have "insert (last hs) (seenTxHashes m \<union> set (butlast hs)) = seenTxHashes m \<union> set hs"
    by auto
  then show ?thesis
    unfolding step txOrder_markSeen seenTxHashes_markSeen markSeen_cache
    using full o s k assms(4) hs by (simp del: append_butlast_last_id)
qed

lemma H1_not_filler: "''H1'' \<notin> set fillerHashes"
  using fillerHashes_chars[of "''H1''"] by blast

lemma fillerRun_ledger:
  "txOrder (fst fillerRun) = ''H1'' # fillerHashes
   \<and> seenTxHashes (fst fillerRun) = set fillerHashes
   \<and> txContextCache (fst fillerRun) = Map.empty
   \<and> alertsOf (snd fillerRun) = [scenarioAlert, scenarioAlert]"
proof -
  define m1 where "m1 = fst (snd overlapRun)"
  have o: "txOrder m1 = [''H1'', ''H1'']" and s: "seenTxHashes m1 = {''H1''}"
    and k: "txContextCache m1 = Map.empty"
    and al: "alertsOf (snd (snd overlapRun)) = [scenarioAlert, scenarioAlert]"
    using overlap_ledger by (simp_all add: m1_def)
  have t: "\<forall>h \<in> set fillerHashes. trim h = h \<and> h \<noteq> []" using fillerHashes_chars by blast
  have d: "set fillerHashes \<inter> seenTxHashes m1 = {}" using H1_not_filler s by simp
  from deliverAll_fillers[OF fillerHashes_distinct t d k, of 10000 base64Decode "snd (snd overlapRun)"]
  have run: "fst fillerRun = fold (markSeen 10000) fillerHashes m1"
    and alerts: "alertsOf (snd fillerRun) = [scenarioAlert, scenarioAlert]"
    by (simp_all add: fillerRun_def m1_def al)
  have ne: "fillerHashes \<noteq> []" using fillerHashes_length by auto
  have len: "int (length (txOrder m1) + length fillerHashes) = 10000 + 1"
    by (simp add: o fillerHashes_length)
  have h: "''H1'' \<noteq> []" by simp
  from fold_markSeen_evicts_first[OF ne len o h]
  show ?thesis using H1_not_filler by (simp add: run alerts s k)
qed

lemma thirdDelivery_result:
  "thirdDelivery
   = (None, markSeen 10000 ''H1'' (fst fillerRun), snd fillerRun @ threeAttempts @ [Notify scenarioAlert])"
  unfolding thirdDelivery_def
  by (rule delivery_unseen) (simp_all add: fillerRun_ledger H1_not_filler)

lemma thirdDelivery_ledger:
  "txOrder (fst (snd thirdDelivery)) = fillerHashes @ [''H1'']
   \<and> seenTxHashes (fst (snd thirdDelivery)) = set fillerHashes
   \<and> txContextCache (fst (snd thirdDelivery)) = Map.empty"
  using H1_not_filler
  by (simp add: thirdDelivery_result txOrder_markSeen seenTxHashes_markSeen markSeen_cache
      fillerRun_ledger fillerHashes_length)

lemma fourthDelivery_result:
  "fourthDelivery
   = (None, markSeen 10000 ''H1'' (fst (snd thirdDelivery)),
      snd (snd thirdDelivery) @ threeAttempts @ [Notify scenarioAlert])"
  unfolding fourthDelivery_def
  by (rule delivery_unseen) (simp_all add: thirdDelivery_ledger H1_not_filler)

text \<open>
  C7 at the configured capacity of 10,000, against an endpoint that answers HTTP 500.
  The frame of \<open>H1\<close> arrives twice on a fresh monitor, the second time while the first
  delivery waits for its first request: both deliveries find \<open>H1\<close> unseen, both
  complete, and \<open>markSeen\<close> has pushed \<open>H1\<close> on the sequence twice.  The frames of
  \<open>T1\<close>, ..., \<open>T9999\<close> follow one after the other and send no alert; the last of them
  evicts the first copy of \<open>H1\<close>, which deletes \<open>H1\<close> from the set while the second
  copy heads the full sequence.  The frame of \<open>H1\<close> is then delivered again: the
  delivery completes and sends the alert, and its own \<open>markSeen\<close> evicts the old copy
  of \<open>H1\<close> and so deletes \<open>H1\<close> from the set again.  The same frame delivered once
  more, after that delivery has completed, sends the alert again.  So a completed
  delivery does not always leave its hash in the ledger, and the second delivery is not
  always without alerts.
\<close>

theorem redelivery_alerts_again:
  "fst overlapRun = (Completed None, Completed None)
   \<and> txOrder (fst (snd overlapRun)) = [''H1'', ''H1'']
   \<and> alertsOf (snd fillerRun) = [scenarioAlert, scenarioAlert]
   \<and> txOrder (fst fillerRun) = ''H1'' # fillerHashes
   \<and> ''H1'' \<notin> seenTxHashes (fst fillerRun)
   \<and> fst thirdDelivery = None
   \<and> alertsOf (snd (snd thirdDelivery)) = alertsOf (snd fillerRun) @ [scenarioAlert]
   \<and> ''H1'' \<notin> seenTxHashes (fst (snd thirdDelivery))
   \<and> fst fourthDelivery = None
   \<and> alertsOf (snd (snd fourthDelivery)) = alertsOf (snd (snd thirdDelivery)) @ [scenarioAlert]"
proof -
  have both: "fst overlapRun = (Completed None, Completed None)"
    by (simp add: overlapRun_result)
  have third: "fst thirdDelivery = None"
    "alertsOf (snd (snd thirdDelivery)) = alertsOf (snd fillerRun) @ [scenarioAlert]"
    by (simp_all add: thirdDelivery_result alertsOf_append alertsOf_simps threeAttempts_def)
  have fourth: "fst fourthDelivery = None"
    "alertsOf (snd (snd fourthDelivery)) = alertsOf (snd (snd thirdDelivery)) @ [scenarioAlert]"
    by (simp_all add: fourthDelivery_result alertsOf_append alertsOf_simps threeAttempts_def)
  show ?thesis
    using H1_not_filler both third fourth
    by (simp add: overlap_ledger fillerRun_ledger thirdDelivery_ledger)
qed

section \<open>The alert scenario\<close>

text \<open>
  C3 (amended).  Processing the frame whose \<open>result.events\<close> map holds
  \<open>transfer.sender = [A]\<close>, \<open>transfer.recipient = [B]\<close>,
  \<open>transfer.amount = [50000000uzig]\<close> and \<open>tx.hash = [H1]\<close>, with watchlist \<open>{A}\<close>,
  threshold 40,000,000 base units and scale 1,000,000, on a monitor that has not seen
  \<open>H1\<close>, completes and adds exactly one alert, whatever the enrichment endpoint
  answers: direction Sent, wallet \<open>A\<close>, display amount \<open>50\<close>.
\<close>

theorem scenario_one_sent_alert:
  assumes "''H1'' \<notin> seenTxHashes m"
  shows "fst (handleRawMessage (scenarioConfig cap) b64 net (Some eventsHashFrame) m tr) = None
       \<and> alertsOf (snd (snd (handleRawMessage (scenarioConfig cap) b64 net (Some eventsHashFrame) m tr)))
           = alertsOf tr @ [mkAlert scenarioTransfer ''A'' Sent ''50''
                              (fst (getTxContext (scenarioConfig cap) net ''H1'' m tr))]
       \<and> alertWallet (mkAlert scenarioTransfer ''A'' Sent ''50'' ctx) = ''A''
       \<and> alertDirection (mkAlert scenarioTransfer ''A'' Sent ''50'' ctx) = Sent
       \<and> alertAmountZig (mkAlert scenarioTransfer ''A'' Sent ''50'' ctx) = ''50''"
proof -
  obtain r m1 tr1 where g: "getTxContext (scenarioConfig cap) net ''H1'' m tr = (r, m1, tr1)"
    by (cases "getTxContext (scenarioConfig cap) net ''H1'' m tr")
  have a: "alertsOf tr1 = alertsOf tr" using getTxContext_result[OF g] by simp
  show ?thesis
    using handleRawMessage_eventsHashFrame[OF assms g, of b64] g a
    by (simp add: alertsOf_append alertsOf_simps mkAlert_def)
qed

theorem scenario_one_sent_alert_witness:
  "''H1'' \<notin> seenTxHashes newMonitor
   \<and> alertsOf (snd (snd (handleRawMessage (scenarioConfig 10000) base64Decode http500
                           (Some eventsHashFrame) newMonitor [])))
       = [scenarioAlert]
   \<and> alertWallet scenarioAlert = ''A'' \<and> alertDirection scenarioAlert = Sent
   \<and> alertAmountZig scenarioAlert = ''50''"
proof -
  have n: "''H1'' \<notin> seenTxHashes newMonitor" by (simp add: newMonitor_def)
  show ?thesis
    using scenario_one_sent_alert[OF n, of 10000 base64Decode http500 "[]" None]
      getTxContext_http500[of 10000 "[]"] n
    by (simp add: scenarioAlert_def alertsOf_simps)
qed

text \<open>
  C3 as stated fails: in the frame as written \<open>tx.hash\<close> is a property of \<open>result\<close>,
  not of \<open>result.events\<close>, no strategy finds a transaction hash, the extraction yields
  the empty list and no alert is sent.
\<close>

theorem scenario_one_sent_alert_counterexample:
  "extractTxSendEvents base64Decode scenarioFrame = Inr []
   \<and> handleRawMessage (scenarioConfig 10000) base64Decode http500 (Some scenarioFrame) newMonitor []
       = (None, newMonitor\<lparr>nonEventMessageCount := 1\<rparr>, [])
   \<and> alertsOf (snd (snd (handleRawMessage (scenarioConfig 10000) base64Decode http500
                           (Some scenarioFrame) newMonitor []))) = []"
  by (simp add: extract_scenarioFrame handleRawMessage_scenarioFrame alertsOf_simps)
     (simp add: newMonitor_def)

section \<open>The extraction cascade\<close>

lemma js_String_total:
  shows "noToStringKey v \<Longrightarrow> \<exists>s. js_String v = Inr s"
    and "\<forall>x \<in> set xs. noToStringKey x \<Longrightarrow> \<exists>ss. js_Strings xs = Inr ss"
proof (induction v and xs rule: js_String_js_Strings.induct)
  case (5 xs)
  then show ?case by (auto simp: bindE_def)
next
  case (6 kvs)
  then show ?case by simp
next
  case (8 x xs)
  then show ?case by (auto simp: bindE_def)
qed auto

lemma noToStringKey_prop: "noToStringKey (JObj kvs) \<Longrightarrow> noToStringKeyOpt (map_of kvs k)"
  by (auto simp: noToStringKeyOpt_def split: option.splits dest!: map_of_SomeD)

lemma noToStringKey_asRecord:
  "noToStringKeyOpt v \<Longrightarrow> asRecord v = Some kvs \<Longrightarrow> noToStringKey (JObj kvs)"
  by (cases v rule: asRecord.cases) (auto simp: noToStringKeyOpt_def)

lemma noToStringKey_getProp:
  "noToStringKeyOpt v \<Longrightarrow> noToStringKeyOpt (getProp (asRecord v) k)"
proof (cases "asRecord v")
  case None
  then show ?thesis by (simp add: getProp_def noToStringKeyOpt_def)
next
  case (Some kvs)
  assume "noToStringKeyOpt v"
  from noToStringKey_prop[OF noToStringKey_asRecord[OF this Some], of k] Some
  show ?thesis by (simp add: getProp_def)
qed

lemma noToStringKey_arrayItems:
  "noToStringKeyOpt v \<Longrightarrow> \<forall>x \<in> set (arrayItems v). noToStringKey x"
  by (auto simp: arrayItems_def noToStringKeyOpt_def split: option.splits json.splits)

lemma noToStringKey_recordsOf:
  "noToStringKeyOpt v \<Longrightarrow> \<forall>r \<in> set (recordsOf v). noToStringKey (JObj r)"
proof
  fix r assume v: "noToStringKeyOpt v" and r: "r \<in> set (recordsOf v)"
  then obtain x where x: "x \<in> set (arrayItems v)" "asRecord (Some x) = Some r"
    by (auto simp: recordsOf_def List.map_filter_def)
  have "noToStringKeyOpt (Some x)" using noToStringKey_arrayItems[OF v] x(1)
    by (simp add: noToStringKeyOpt_def)
  from noToStringKey_asRecord[OF this x(2)] show "noToStringKey (JObj r)" .
qed

lemma stringOr_total: "noToStringKeyOpt v \<Longrightarrow> \<exists>s. stringOr v = Inr s"
proof (cases "truthy v")
  case False
  then show ?thesis by (simp add: stringOr_def)
next
  case True
  assume n: "noToStringKeyOpt v"
  from True obtain x where x: "v = Some x" by (cases v) auto
  then have "noToStringKey x" using n by (simp add: noToStringKeyOpt_def)
  from js_String_total(1)[OF this] show ?thesis using True x by (simp add: stringOr_def)
qed

lemma stringNullish_total: "noToStringKeyOpt v \<Longrightarrow> \<exists>s. stringNullish v = Inr s"
proof (cases v)
  case None
  then show ?thesis by (simp add: stringNullish_def)
next
  case (Some x)
  assume n: "noToStringKeyOpt v"
  then have "noToStringKey x" using Some by (simp add: noToStringKeyOpt_def)
  from js_String_total(1)[OF this] obtain s where s: "js_String x = Inr s" by blast
  have "stringNullish (Some x) = (if x = JNull then Inr [] else js_String x)"
    by (cases x) (simp_all add: stringNullish_def)
  then show ?thesis using s Some by simp
qed

lemma mapE_total: "\<forall>x \<in> set xs. \<exists>y. f x = Inr y \<Longrightarrow> \<exists>ys. mapE f xs = Inr ys"
  by (induction xs) (auto simp: bindE_def)

lemma noToStringKey_walk: "noToStringKey v \<Longrightarrow> \<forall>x \<in> set (walk v). noToStringKey x"
  by (induction v rule: walk.induct) auto

lemma collectAttrs_total:
  "\<forall>a \<in> set attrs. noToStringKey a \<Longrightarrow> \<exists>r. collectAttrs b64 attrs acc = Inr r"
proof (induction attrs arbitrary: acc)
  case Nil
  show ?case by (rule exI[of _ acc]) simp
next
  case (Cons a attrs)
  obtain ss rs ams where acc: "acc = (ss, rs, ams)" by (cases acc) auto
  have rest: "\<exists>r. collectAttrs b64 attrs acc' = Inr r" for acc'
    using Cons.IH[of acc'] Cons.prems by simp
  show ?case
  proof (cases "asRecord (Some a)")
    case None
    then show ?thesis using rest acc by simp
  next
    case (Some attr)
    have "noToStringKeyOpt (Some a)" using Cons.prems by (simp add: noToStringKeyOpt_def)
    from noToStringKey_asRecord[OF this Some] have o: "noToStringKey (JObj attr)" .
    obtain k where k: "stringNullish (map_of attr ''key'') = Inr k"
      using stringNullish_total[OF noToStringKey_prop[OF o]] by blast
    obtain v where v: "stringNullish (map_of attr ''value'') = Inr v"
      using stringNullish_total[OF noToStringKey_prop[OF o]] by blast
    show ?thesis using Some acc k v rest by (simp add: bindE_def)
  qed
qed

lemma transfersOfEvent_total:
  assumes "noToStringKey (JObj event)"
  shows "\<exists>ts. transfersOfEvent b64 h event = Inr ts"
proof -
  obtain ty where ty: "stringOr (map_of event ''type'') = Inr ty"
    using stringOr_total[OF noToStringKey_prop[OF assms]] by blast
  have "\<forall>a \<in> set (arrayItems (map_of event ''attributes'')). noToStringKey a"
    using noToStringKey_arrayItems[OF noToStringKey_prop[OF assms]] .
  from collectAttrs_total[OF this] obtain r
    where r: "collectAttrs b64 (arrayItems (map_of event ''attributes'')) ([], [], []) = Inr r"
    by blast
  show ?thesis using ty r by (cases r) (simp add: transfersOfEvent_def bindE_def)
qed

lemma extractFromTendermintEventArray_total:
  assumes "noToStringKey payload"
  shows "\<exists>ts. extractFromTendermintEventArray b64 payload = Inr ts"
proof (cases "asRecord (Some payload)")
  case None
  then show ?thesis by (simp add: extractFromTendermintEventArray_def)
next
  case (Some rootObj)
  have p: "noToStringKeyOpt (Some payload)" using assms by (simp add: noToStringKeyOpt_def)
  have res: "noToStringKeyOpt (map_of rootObj ''result'')"
    using noToStringKey_getProp[OF p, of "''result''"] Some by (simp add: getProp_def)
  let ?result = "asRecord (map_of rootObj ''result'')"
  let ?txResult = "asRecord (getProp (asRecord (getProp (asRecord (getProp (asRecord
        (getProp ?result ''data'')) ''value'')) ''TxResult'')) ''result'')"
  have e2: "noToStringKeyOpt (getProp ?result ''events'')"
    using noToStringKey_getProp[OF res] .
  have e1: "noToStringKeyOpt (getProp ?txResult ''events'')"
    by (intro noToStringKey_getProp res)
  have "\<forall>r \<in> set (recordsOf (getProp ?txResult ''events'') @ recordsOf (getProp ?result ''events'')).
          \<exists>ts. transfersOfEvent b64 h r = Inr ts" for h
    using noToStringKey_recordsOf[OF e1] noToStringKey_recordsOf[OF e2] transfersOfEvent_total
    by auto
  then have m: "\<exists>ts. bindE (mapE (transfersOfEvent b64 h)
        (recordsOf (getProp ?txResult ''events'') @ recordsOf (getProp ?result ''events'')))
        (\<lambda>xs. Inr (concat xs)) = Inr ts" for h
    using mapE_total[of _ "transfersOfEvent b64 h"] by (fastforce simp: bindE_def)
  show ?thesis
  proof (cases "extractTxHash payload")
    case None
    then show ?thesis using Some by (simp add: extractFromTendermintEventArray_def)
  next
    case (Some h)
    then show ?thesis using \<open>asRecord (Some payload) = Some rootObj\<close> m[of h]
      by (simp add: extractFromTendermintEventArray_def Let_def)
  qed
qed

lemma coinTransfers_total:
  "\<forall>c \<in> set coins. noToStringKey c \<Longrightarrow> \<exists>ts. coinTransfers s r h coins = Inr ts"
proof (induction coins)
  case Nil
  show ?case by simp
next
  case (Cons c coins)
  obtain ts where ts: "coinTransfers s r h coins = Inr ts" using Cons by auto
  show ?case
  proof (cases "asRecord (Some c)")
    case None
    then show ?thesis using ts by simp
  next
    case (Some coin)
    have "noToStringKeyOpt (Some c)" using Cons.prems by (simp add: noToStringKeyOpt_def)
    from noToStringKey_asRecord[OF this Some] have o: "noToStringKey (JObj coin)" .
    obtain d where d: "stringOr (map_of coin ''denom'') = Inr d"
      using stringOr_total[OF noToStringKey_prop[OF o]] by blast
    obtain a where a: "stringOr (map_of coin ''amount'') = Inr a"
      using stringOr_total[OF noToStringKey_prop[OF o]] by blast
    show ?thesis using Some d a ts by (simp add: bindE_def)
  qed
qed

lemma messageBodyVisit_total:
  assumes "noToStringKey v"
  shows "\<exists>ts. messageBodyVisit h v = Inr ts"
proof (cases "asRecord (Some v)")
  case None
  then show ?thesis by (simp add: messageBodyVisit_def)
next
  case (Some obj)
  have "noToStringKeyOpt (Some v)" using assms by (simp add: noToStringKeyOpt_def)
  from noToStringKey_asRecord[OF this Some] have o: "noToStringKey (JObj obj)" .
  obtain ty where ty: "stringOr (map_of obj ''@type'') = Inr ty"
    using stringOr_total[OF noToStringKey_prop[OF o]] by blast
  have items: "\<forall>c \<in> set (arrayItems (map_of obj k)). noToStringKey c" for k
    using noToStringKey_arrayItems[OF noToStringKey_prop[OF o]] .
  obtain f where f: "coinTransfers (the (stringField (map_of obj ''sender'')))
      (the (stringField (map_of obj ''contract''))) h (arrayItems (map_of obj ''funds'')) = Inr f"
    using coinTransfers_total[OF items] by blast
  obtain g where g: "coinTransfers (the (stringField (map_of obj ''from_address'')))
      (the (stringField (map_of obj ''to_address''))) h (arrayItems (map_of obj ''amount'')) = Inr g"
    using coinTransfers_total[OF items] by blast
  show ?thesis using Some ty f g by (simp add: messageBodyVisit_def bindE_def)
qed

lemma extractFromMessageBodies_total:
  assumes "noToStringKey payload"
  shows "\<exists>ts. extractFromMessageBodies payload = Inr ts"
proof -
  have "\<forall>v \<in> set (walk payload). \<exists>ts. messageBodyVisit h v = Inr ts" for h
    using noToStringKey_walk[OF assms] messageBodyVisit_total by blast
  then have m: "\<exists>ts. bindE (mapE (messageBodyVisit h) (walk payload)) (\<lambda>xs. Inr (concat xs))
                      = Inr ts" for h
    using mapE_total[of _ "messageBodyVisit h"] by (fastforce simp: bindE_def)
  show ?thesis
  proof (cases "extractTxHash payload")
    case None
    then show ?thesis by (simp add: extractFromMessageBodies_def)
  next
    case (Some h)
    then show ?thesis using m[of h] by (simp add: extractFromMessageBodies_def)
  qed
qed

lemma extractTxSendEvents_total:
  assumes "noToStringKey payload"
  shows "\<exists>events. extractTxSendEvents b64 payload = Inr events"
proof -
  obtain t where t: "extractFromTendermintEventArray b64 payload = Inr t"
    using extractFromTendermintEventArray_total[OF assms] by blast
  obtain b where b: "extractFromMessageBodies payload = Inr b"
    using extractFromMessageBodies_total[OF assms] by blast
  show ?thesis using t b by (simp add: extractTxSendEvents_def bindE_def)
qed

lemma cascade_direct_scan_wins:
  "directScan payload \<noteq> [] \<Longrightarrow> extractTxSendEvents b64 payload = Inr (directScan payload)"
  by (simp add: extractTxSendEvents_def)

lemma cascade_no_match:
  "directScan payload = [] \<Longrightarrow> extractFromCosmosEventStyle payload = []
   \<Longrightarrow> extractFromTendermintEventArray b64 payload = Inr []
   \<Longrightarrow> extractFromMessageBodies payload = Inr []
   \<Longrightarrow> extractTxSendEvents b64 payload = Inr []"
  by (simp add: extractTxSendEvents_def bindE_def)

text \<open>
  C6 at the frame \<open>{"txhash":"H","result":{"events":[{"type":{"toString":1}}]}}\<close>:
  strategies 1 and 2 find nothing, and strategy 3 throws a TypeError when it converts
  the event's \<open>type\<close>, an object with an own key \<open>toString\<close>, to a string; the
  exception leaves \<open>extractTxSendEvents\<close> and \<open>handleRawMessage\<close>.  So the extraction
  is not total.  The rest of the claim holds: a non-empty direct scan is returned
  without running the other strategies, four empty results give the empty list, and
  the extraction returns a list for every payload in which no object has an own key
  \<open>toString\<close> (the lemmas above).
\<close>

theorem extraction_throws_on_toString_key:
  "directScan toStringFrame = [] \<and> extractFromCosmosEventStyle toStringFrame = []
   \<and> extractFromTendermintEventArray b64 toStringFrame = Inl TypeError
   \<and> extractTxSendEvents b64 toStringFrame = Inl TypeError
   \<and> fst (handleRawMessage cfg b64 net (Some toStringFrame) m tr) = Some TypeError"
  by (simp add: handleRawMessage_def extract_toStringFrame)
     (simp add: toStringFrame_def extract_eval)

end
